theory Spec2Isabelle
  imports Complex_Main "HOL-Library.Char_ord" "HOL-Library.List_Lexorder"
begin

section \<open>JavaScript values\<close>

text \<open>
  A JavaScript string is a sequence of UTF-16 code units. The repair code looks at code
  units above 255 (typographic quotes), so a text is a list of code units; \<open>js\<close> turns
  an ASCII literal into one.
\<close>

type_synonym jsstring = "nat list"

definition js :: "string \<Rightarrow> jsstring" where
  "js s = map of_char s"

text \<open>
  The values \<open>JSON.parse\<close> produces. \<open>JNull\<close> is also what the helpers return for
  "nothing found" (\<open>null\<close>). An object keeps its keys in insertion order.
\<close>

datatype json =
    JNull
  | JBool bool
  | JNum rat
  | JStr jsstring
  | JArr "json list"
  | JObj "(jsstring \<times> json) list"

text \<open>A call either returns a value or throws.\<close>

datatype 'a outcome = Returns 'a | Throws

text \<open>Truthiness of a parsed value (\<open>if (x)\<close>, \<open>x || y\<close>, \<open>!x\<close>).\<close>

fun truthy :: "json \<Rightarrow> bool" where
  "truthy JNull = False"
| "truthy (JBool b) = b"
| "truthy (JNum n) = (n \<noteq> 0)"
| "truthy (JStr s) = (s \<noteq> [])"
| "truthy (JArr _) = True"
| "truthy (JObj _) = True"

text \<open>
  Property read \<open>o.k\<close> on a value that is not \<open>null\<close>: \<open>None\<close> is \<open>undefined\<close>. A
  key written twice keeps its last value, which is what \<open>JSON.parse\<close> and object
  literals do; \<open>obj_set\<close> is the assignment \<open>o[k] = v\<close>.
\<close>

fun obj_set :: "jsstring \<Rightarrow> json \<Rightarrow> (jsstring \<times> json) list \<Rightarrow> (jsstring \<times> json) list" where
  "obj_set k v [] = [(k, v)]"
| "obj_set k v ((k', v') # kvs) =
     (if k' = k then (k, v) # kvs else (k', v') # obj_set k v kvs)"

fun get_field :: "json \<Rightarrow> jsstring \<Rightarrow> json option" where
  "get_field (JObj kvs) k = map_of kvs k"
| "get_field _ k = None"

text \<open>\<open>a ?? b\<close> is \<open>a\<close> unless \<open>a\<close> is \<open>undefined\<close> or \<open>null\<close>.\<close>

fun nullish :: "json option \<Rightarrow> bool" where
  "nullish None = True"
| "nullish (Some JNull) = True"
| "nullish (Some _) = False"

text \<open>The chain \<open>a ?? b ?? ... ?? d\<close>.\<close>

fun first_of :: "json option list \<Rightarrow> json \<Rightarrow> json" where
  "first_of [] d = d"
| "first_of (x # xs) d = (if nullish x then first_of xs d else the x)"


section \<open>Reading model replies\<close>

text \<open>
  \<open>JSON.parse\<close> belongs to the platform: the functions below take it as the parameter
  \<open>parse\<close>, which returns the parsed value or throws.
\<close>

type_synonym parser = "jsstring \<Rightarrow> json outcome"

subsection \<open>Strings\<close>

text \<open>White space as \<open>trim\<close> and the class \<open>\s\<close> see it.\<close>

definition is_space :: "nat \<Rightarrow> bool" where
  "is_space c =
     (c \<in> set [9, 10, 11, 12, 13, 32, 160, 5760, 8232, 8233, 8239, 8287, 12288, 65279] \<or>
      (8192 \<le> c \<and> c \<le> 8202))"

definition trim :: "jsstring \<Rightarrow> jsstring" where
  "trim s = rev (dropWhile is_space (rev (dropWhile is_space s)))"

definition trim_end :: "jsstring \<Rightarrow> jsstring" where
  "trim_end s = rev (dropWhile is_space (rev s))"

definition starts_with :: "jsstring \<Rightarrow> jsstring \<Rightarrow> bool" where
  "starts_with s p = (take (length p) s = p)"

fun indexOf :: "nat \<Rightarrow> jsstring \<Rightarrow> nat option" where
  "indexOf c [] = None"
| "indexOf c (x # xs) = (if x = c then Some 0 else map_option Suc (indexOf c xs))"

definition lastIndexOf :: "nat \<Rightarrow> jsstring \<Rightarrow> nat option" where
  "lastIndexOf c s = map_option (\<lambda>i. length s - 1 - i) (indexOf c (rev s))"

definition substring :: "jsstring \<Rightarrow> nat \<Rightarrow> nat \<Rightarrow> jsstring" where
  "substring s a b = take (b - a) (drop a s)"

text \<open>\<open>s.split('\n')\<close>\<close>

fun split_lines :: "jsstring \<Rightarrow> jsstring \<Rightarrow> jsstring list" where
  "split_lines acc [] = [acc]"
| "split_lines acc (c # cs) =
     (if c = 10 then acc # split_lines [] cs else split_lines (acc @ [c]) cs)"

subsection \<open>A reading of \<open>JSON.parse\<close>\<close>

text \<open>
  The theorems below hold for every \<open>parse\<close>. The examples need one that can be run:
  \<open>JSON_parse\<close> reads the JSON grammar (white space, literals, numbers, strings with
  their escapes, arrays, objects; a key written twice keeps its last value) and throws
  on anything else. A number is kept as the exact value of its digits. The first
  argument of \<open>json_value\<close> bounds the nesting and the length of a list; twice the
  length of the text is more than any text needs.
\<close>

definition json_space :: "nat \<Rightarrow> bool" where
  "json_space c = (c = 9 \<or> c = 10 \<or> c = 13 \<or> c = 32)"

definition is_digit_unit :: "nat \<Rightarrow> bool" where
  "is_digit_unit c = (48 \<le> c \<and> c \<le> 57)"

fun digits_number :: "nat \<Rightarrow> jsstring \<Rightarrow> nat" where
  "digits_number acc [] = acc"
| "digits_number acc (c # cs) = digits_number (10 * acc + (c - 48)) cs"

definition hex_value :: "nat \<Rightarrow> nat option" where
  "hex_value c =
     (if 48 \<le> c \<and> c \<le> 57 then Some (c - 48)
      else if 97 \<le> c \<and> c \<le> 102 then Some (c - 87)
      else if 65 \<le> c \<and> c \<le> 70 then Some (c - 55)
      else None)"

text \<open>The text after an opening quote: the string's code units and the rest.\<close>

fun string_body :: "jsstring \<Rightarrow> jsstring \<Rightarrow> (jsstring \<times> jsstring) option" where
  "string_body acc [] = None"
| "string_body acc [c] = (if c = 34 then Some (acc, []) else None)"
| "string_body acc (c # d # rest) =
     (if c = 34 then Some (acc, d # rest)
      else if c < 32 then None
      else if c = 92 then
        (if d = 34 \<or> d = 92 \<or> d = 47 then string_body (acc @ [d]) rest
         else if d = 98 then string_body (acc @ [8]) rest
         else if d = 102 then string_body (acc @ [12]) rest
         else if d = 110 then string_body (acc @ [10]) rest
         else if d = 114 then string_body (acc @ [13]) rest
         else if d = 116 then string_body (acc @ [9]) rest
         else if d = 117 then
           (case rest of
              h1 # h2 # h3 # h4 # rest' \<Rightarrow>
                (case (hex_value h1, hex_value h2, hex_value h3, hex_value h4) of
                   (Some a, Some b, Some c', Some d') \<Rightarrow>
                     string_body (acc @ [((a * 16 + b) * 16 + c') * 16 + d']) rest'
                 | _ \<Rightarrow> None)
            | _ \<Rightarrow> None)
         else None)
      else string_body (acc @ [c]) (d # rest))"

text \<open>A number: sign, whole part without leading zero, fraction, exponent.\<close>

definition number_token :: "jsstring \<Rightarrow> (rat \<times> jsstring) option" where
  "number_token s =
     (let negative = (s \<noteq> [] \<and> hd s = 45);
          s1 = (if negative then tl s else s);
          whole = takeWhile is_digit_unit s1;
          s2 = dropWhile is_digit_unit s1;
          has_fraction = (s2 \<noteq> [] \<and> hd s2 = 46);
          fraction = (if has_fraction then takeWhile is_digit_unit (tl s2) else []);
          s3 = (if has_fraction then dropWhile is_digit_unit (tl s2) else s2);
          has_exponent = (s3 \<noteq> [] \<and> (hd s3 = 101 \<or> hd s3 = 69));
          s4 = (if has_exponent then tl s3 else s3);
          exponent_negative = (has_exponent \<and> s4 \<noteq> [] \<and> hd s4 = 45);
          s5 = (if has_exponent \<and> s4 \<noteq> [] \<and> (hd s4 = 45 \<or> hd s4 = 43) then tl s4 else s4);
          exponent = (if has_exponent then takeWhile is_digit_unit s5 else []);
          s6 = (if has_exponent then dropWhile is_digit_unit s5 else s3);
          mantissa = of_nat (digits_number 0 (whole @ fraction)) / 10 ^ length fraction;
          scaled = (if exponent_negative then mantissa / 10 ^ digits_number 0 exponent
                    else mantissa * 10 ^ digits_number 0 exponent)
      in
      if whole = [] \<or> (length whole > 1 \<and> hd whole = 48) \<or> (has_fraction \<and> fraction = []) \<or>
         (has_exponent \<and> exponent = [])
      then None
      else Some (if negative then - scaled else scaled, s6))"

fun json_value :: "jsstring \<Rightarrow> jsstring \<Rightarrow> (json \<times> jsstring) option"
  and json_elements :: "jsstring \<Rightarrow> json list \<Rightarrow> jsstring \<Rightarrow> (json list \<times> jsstring) option"
  and json_members :: "jsstring \<Rightarrow> (jsstring \<times> json) list \<Rightarrow> jsstring \<Rightarrow> ((jsstring \<times> json) list \<times> jsstring) option"
where
  "json_value [] s = None"
| "json_value (_ # fuel) s =
     (case dropWhile json_space s of
        [] \<Rightarrow> None
      | c # cs \<Rightarrow>
          if c = 123 then
            (case dropWhile json_space cs of
               [] \<Rightarrow> None
             | d # ds \<Rightarrow>
                 if d = 125 then Some (JObj [], ds)
                 else map_option (\<lambda>(kvs, r). (JObj kvs, r)) (json_members fuel [] cs))
          else if c = 91 then
            (case dropWhile json_space cs of
               [] \<Rightarrow> None
             | d # ds \<Rightarrow>
                 if d = 93 then Some (JArr [], ds)
                 else map_option (\<lambda>(xs, r). (JArr xs, r)) (json_elements fuel [] cs))
          else if c = 34 then map_option (\<lambda>(t, r). (JStr t, r)) (string_body [] cs)
          else if starts_with (c # cs) [116, 114, 117, 101] then Some (JBool True, drop 3 cs)
          else if starts_with (c # cs) [102, 97, 108, 115, 101] then Some (JBool False, drop 4 cs)
          else if starts_with (c # cs) [110, 117, 108, 108] then Some (JNull, drop 3 cs)
          else map_option (\<lambda>(n, r). (JNum n, r)) (number_token (c # cs)))"
| "json_elements [] acc s = None"
| "json_elements (_ # fuel) acc s =
     (case json_value fuel s of
        None \<Rightarrow> None
      | Some (v, r) \<Rightarrow>
          (case dropWhile json_space r of
             [] \<Rightarrow> None
           | c # cs \<Rightarrow>
               if c = 44 then json_elements fuel (acc @ [v]) cs
               else if c = 93 then Some (acc @ [v], cs)
               else None))"
| "json_members [] acc s = None"
| "json_members (_ # fuel) acc s =
     (case dropWhile json_space s of
        [] \<Rightarrow> None
      | q # qs \<Rightarrow>
          if q \<noteq> 34 then None
          else
            (case string_body [] qs of
               None \<Rightarrow> None
             | Some (k, r) \<Rightarrow>
                 (case dropWhile json_space r of
                    [] \<Rightarrow> None
                  | c # cs \<Rightarrow>
                      if c \<noteq> 58 then None
                      else
                        (case json_value fuel cs of
                           None \<Rightarrow> None
                         | Some (v, r') \<Rightarrow>
                             (case dropWhile json_space r' of
                                [] \<Rightarrow> None
                              | e # es \<Rightarrow>
                                  if e = 44 then json_members fuel (obj_set k v acc) es
                                  else if e = 125 then Some (obj_set k v acc, es)
                                  else None)))))"

definition JSON_parse :: parser where
  "JSON_parse s =
     (case json_value (0 # s @ s) s of
        Some (v, r) \<Rightarrow> if dropWhile json_space r = [] then Returns v else Throws
      | None \<Rightarrow> Throws)"

subsection \<open>The repairs of \<open>tryParseJsonWithRepairs\<close>\<close>

text \<open>
  Typographic single quotes become \<open>'\<close>, typographic double quotes become \<open>"\<close>, a
  no-break space becomes a blank.
\<close>

definition normalize_quotes :: "jsstring \<Rightarrow> jsstring" where
  "normalize_quotes s =
     map (\<lambda>c. if c = 160 then 32 else c)
       (map (\<lambda>c. if c \<in> {8220, 8221, 8222, 8223, 8243} then 34 else c)
          (map (\<lambda>c. if c \<in> {8216, 8217, 8218, 8219, 8242} then 39 else c) s))"

text \<open>\<open>s.replace(/,\s*(?=[}\]])/g, '')\<close>: a comma and the blanks after it go when \<open>}\<close> or \<open>]\<close> follows.\<close>

function remove_trailing_commas :: "jsstring \<Rightarrow> jsstring" where
  "remove_trailing_commas [] = []"
| "remove_trailing_commas (c # cs) =
     (if c = 44 \<and> dropWhile is_space cs \<noteq> [] \<and> hd (dropWhile is_space cs) \<in> {125, 93}
      then remove_trailing_commas (dropWhile is_space cs)
      else c # remove_trailing_commas cs)"
  by pat_completeness auto
termination
  by (relation "measure length") (auto simp: length_dropWhile_le le_imp_less_Suc)

text \<open>
  \<open>s.replace(/'([^'\\]*(\\.[^'\\]*)*)'/g, ...)\<close>: a single-quoted string becomes a
  double-quoted one, the double quotes inside it escaped. \<open>quoted_body\<close> gives the
  length of the body when the text after the opening quote has a closing quote; a
  backslash takes the next code unit with it, which may not end a line.
\<close>

definition is_line_terminator :: "nat \<Rightarrow> bool" where
  "is_line_terminator c = (c \<in> {10, 13, 8232, 8233})"

fun quoted_body :: "jsstring \<Rightarrow> nat option" where
  "quoted_body [] = None"
| "quoted_body (c # cs) =
     (if c = 39 then Some 0
      else if c = 92 then
        (case cs of
           [] \<Rightarrow> None
         | d # ds \<Rightarrow>
             if is_line_terminator d then None else map_option (\<lambda>n. n + 2) (quoted_body ds))
      else map_option Suc (quoted_body cs))"

definition escape_double_quotes :: "jsstring \<Rightarrow> jsstring" where
  "escape_double_quotes s = concat (map (\<lambda>c. if c = 34 then [92, 34] else [c]) s)"

fun single_to_double :: "jsstring \<Rightarrow> jsstring" where
  "single_to_double [] = []"
| "single_to_double (c # cs) =
     (if c = 39 then
        (case quoted_body cs of
           Some n \<Rightarrow>
             34 # escape_double_quotes (take n cs) @ 34 # single_to_double (drop (Suc n) cs)
         | None \<Rightarrow> c # single_to_double cs)
      else c # single_to_double cs)"

text \<open>\<open>s.replace(/([{,]\s*)([A-Za-z0-9_@$\-]+)\s*:/g, '$1"$2":')\<close>\<close>

definition is_key_char :: "nat \<Rightarrow> bool" where
  "is_key_char c =
     ((65 \<le> c \<and> c \<le> 90) \<or> (97 \<le> c \<and> c \<le> 122) \<or> (48 \<le> c \<and> c \<le> 57) \<or>
      c \<in> {95, 64, 36, 45})"

function quote_keys :: "jsstring \<Rightarrow> jsstring" where
  "quote_keys [] = []"
| "quote_keys (c # cs) =
     (let r1 = dropWhile is_space cs; r2 = dropWhile is_key_char r1; r3 = dropWhile is_space r2 in
      if (c = 123 \<or> c = 44) \<and> takeWhile is_key_char r1 \<noteq> [] \<and> r3 \<noteq> [] \<and> hd r3 = 58
      then c # takeWhile is_space cs @ 34 # takeWhile is_key_char r1 @ 34 # 58 # quote_keys (tl r3)
      else c # quote_keys cs)"
  by pat_completeness auto
termination
proof (relation "measure length")
  show "wf (measure length)" by simp
next
  fix c :: nat and cs x xa xb :: "nat list"
  assume "x = dropWhile is_space cs" "xa = dropWhile is_key_char x" "xb = dropWhile is_space xa"
  then have "length xb \<le> length cs"
    by (metis length_dropWhile_le order_trans)
  then show "(tl xb, c # cs) \<in> measure length" by simp
next
  fix c :: nat and cs :: "nat list"
  show "(cs, c # cs) \<in> measure length" by simp
qed

definition tryParseJsonWithRepairs :: "parser \<Rightarrow> jsstring \<Rightarrow> json" where
  "tryParseJsonWithRepairs parse candidate =
     (if candidate = [] then JNull
      else
        let s = trim (normalize_quotes candidate) in
        case parse s of
          Returns v \<Rightarrow> v
        | Throws \<Rightarrow>
            (case parse (quote_keys (single_to_double (remove_trailing_commas s))) of
               Returns v \<Rightarrow> v
             | Throws \<Rightarrow> JNull))"

subsection \<open>\<open>extractFirstJsonObj\<close>\<close>

text \<open>\<open>text.match(/\{[\s\S]*\}/m)\<close>: from the first \<open>{\<close> to the last \<open>}\<close>.\<close>

definition match_braces :: "jsstring \<Rightarrow> jsstring option" where
  "match_braces text =
     (case (indexOf 123 text, lastIndexOf 125 text) of
        (Some a, Some b) \<Rightarrow> if a < b then Some (substring text a (b + 1)) else None
      | _ \<Rightarrow> None)"

text \<open>
  The loop over \<open>i\<close> from \<open>firstOpen\<close>: \<open>seen\<close> is \<open>text.slice(firstOpen, i)\<close>, the last
  argument is the text from \<open>i\<close> on. \<open>Some v\<close> is a \<open>return v\<close> from inside the loop,
  \<open>None\<close> is the loop running to the end of the text.
\<close>

fun scan :: "parser \<Rightarrow> jsstring \<Rightarrow> bool \<Rightarrow> bool \<Rightarrow> int \<Rightarrow> jsstring \<Rightarrow> json option" where
  "scan parse seen inString escape depth [] = None"
| "scan parse seen inString escape depth (ch # rest) =
     (if escape then scan parse (seen @ [ch]) inString False depth rest
      else if ch = 92 then scan parse (seen @ [ch]) inString True depth rest
      else if ch = 34 then scan parse (seen @ [ch]) (\<not> inString) False depth rest
      else if \<not> inString then
        (if ch = 123 then scan parse (seen @ [ch]) inString False (depth + 1) rest
         else if ch = 125 then
           (if depth - 1 = 0 then
              (case parse (seen @ [ch]) of
                 Returns v \<Rightarrow> Some v
               | Throws \<Rightarrow>
                   (let repaired = tryParseJsonWithRepairs parse (seen @ [ch]) in
                    if truthy repaired then Some repaired
                    else scan parse (seen @ [ch]) inString False (depth - 1) rest))
            else scan parse (seen @ [ch]) inString False (depth - 1) rest)
         else scan parse (seen @ [ch]) inString False depth rest)
      else scan parse (seen @ [ch]) inString False depth rest)"

definition extractFirstJsonObj :: "parser \<Rightarrow> jsstring \<Rightarrow> json" where
  "extractFirstJsonObj parse text =
     (if text = [] then JNull
      else case indexOf 123 text of
        None \<Rightarrow>
          (case match_braces text of
             Some m \<Rightarrow> tryParseJsonWithRepairs parse m
           | None \<Rightarrow> JNull)
      | Some firstOpen \<Rightarrow>
          (case scan parse [] False False 0 (drop firstOpen text) of
             Some v \<Rightarrow> v
           | None \<Rightarrow>
               (case match_braces text of
                  Some m \<Rightarrow> tryParseJsonWithRepairs parse m
                | None \<Rightarrow> JNull)))"

subsection \<open>\<open>parseAIResponse\<close> of the combine service\<close>

text \<open>\<open>response.replace(/```(json)?/g, '')\<close>\<close>

fun remove_fences :: "jsstring \<Rightarrow> jsstring" where
  "remove_fences [] = []"
| "remove_fences (c # cs) =
     (if starts_with (c # cs) [96, 96, 96, 106, 115, 111, 110] then remove_fences (drop 6 cs)
      else if starts_with (c # cs) [96, 96, 96] then remove_fences (drop 2 cs)
      else c # remove_fences cs)"

definition cleanResponse :: "jsstring \<Rightarrow> jsstring" where
  "cleanResponse response = trim (remove_fences response)"

text \<open>Attempt 2: the text between the first \<open>[\<close> and the last \<open>]\<close>.\<close>

definition array_candidate :: "jsstring \<Rightarrow> jsstring" where
  "array_candidate clean =
     (case indexOf 91 clean of
        None \<Rightarrow> clean
      | Some jsonStart \<Rightarrow>
          (case lastIndexOf 93 clean of
             None \<Rightarrow> drop jsonStart clean
           | Some jsonEnd \<Rightarrow>
               if jsonEnd > jsonStart then substring clean jsonStart (jsonEnd + 1)
               else drop jsonStart clean))"

text \<open>
  \<open>replace(/,\s*$/, '')\<close>, \<open>replace(/\]\s*$/, '')\<close> and \<open>replace(/}\s*$/, '}]')\<close>: each
  looks at the last code unit that is not white space.
\<close>

definition drop_final :: "nat \<Rightarrow> jsstring \<Rightarrow> jsstring" where
  "drop_final c s =
     (let t = trim_end s in if t \<noteq> [] \<and> last t = c then butlast t else s)"

definition close_final_brace :: "jsstring \<Rightarrow> jsstring" where
  "close_final_brace s =
     (let t = trim_end s in if t \<noteq> [] \<and> last t = 125 then t @ [93] else s)"

definition array_attempts :: "jsstring \<Rightarrow> jsstring list" where
  "array_attempts candidate =
     [candidate,
      candidate @ [93],
      [91] @ candidate @ [93],
      drop_final 44 candidate @ [93],
      drop_final 44 candidate,
      drop_final 93 candidate @ [93],
      close_final_brace candidate]"

text \<open>\<open>for (const attempt of attempts) { try { return JSON.parse(attempt) } catch { } }\<close>\<close>

fun first_parse :: "parser \<Rightarrow> jsstring list \<Rightarrow> json option" where
  "first_parse parse [] = None"
| "first_parse parse (a # as) =
     (case parse a of Returns v \<Rightarrow> Some v | Throws \<Rightarrow> first_parse parse as)"

text \<open>Attempt 3: the lines that start an object or an array.\<close>

definition json_lines :: "jsstring \<Rightarrow> jsstring list" where
  "json_lines clean =
     filter (\<lambda>line. line \<noteq> [] \<and> (starts_with line [123] \<or> starts_with line [91]))
       (map trim (split_lines [] clean))"

text \<open>\<open>replace(/\]\s*\[/g, ',')\<close>\<close>

function join_arrays :: "jsstring \<Rightarrow> jsstring" where
  "join_arrays [] = []"
| "join_arrays (c # cs) =
     (if c = 93 \<and> dropWhile is_space cs \<noteq> [] \<and> hd (dropWhile is_space cs) = 91
      then 44 # join_arrays (tl (dropWhile is_space cs))
      else c # join_arrays cs)"
  by pat_completeness auto
termination
proof (relation "measure length")
  show "wf (measure length)" by simp
next
  fix c :: nat and cs :: "nat list"
  have "length (dropWhile is_space cs) \<le> length cs" by (rule length_dropWhile_le)
  then show "(tl (dropWhile is_space cs), c # cs) \<in> measure length" by simp
next
  fix c :: nat and cs :: "nat list"
  show "(cs, c # cs) \<in> measure length" by simp
qed

text \<open>\<open>line.replace(/,\s*}$/, '}')\<close>\<close>

definition drop_comma_before_brace :: "jsstring \<Rightarrow> jsstring" where
  "drop_comma_before_brace line =
     (if line \<noteq> [] \<and> last line = 125 \<and> trim_end (butlast line) \<noteq> [] \<and>
         last (trim_end (butlast line)) = 44
      then butlast (trim_end (butlast line)) @ [125]
      else line)"

fun parsed_lines :: "parser \<Rightarrow> jsstring list \<Rightarrow> json list" where
  "parsed_lines parse [] = []"
| "parsed_lines parse (line # lines) =
     (case parse (drop_comma_before_brace line) of
        Returns v \<Rightarrow> v # parsed_lines parse lines
      | Throws \<Rightarrow> parsed_lines parse lines)"

text \<open>
  Attempt 4: \<open>/\{[\s\S]*?\}(?=\s*\{|\s*$)/g\<close>. From a \<open>{\<close>, the match ends at the first
  \<open>}\<close> after which only white space precedes a \<open>{\<close> or the end of the text;
  \<open>object_end\<close> counts the code units after the \<open>{\<close> up to and including that \<open>}\<close>.
\<close>

definition at_object_boundary :: "jsstring \<Rightarrow> bool" where
  "at_object_boundary rest =
     (case dropWhile is_space rest of [] \<Rightarrow> True | d # _ \<Rightarrow> d = 123)"

fun object_end :: "jsstring \<Rightarrow> nat option" where
  "object_end [] = None"
| "object_end (c # cs) =
     (if c = 125 \<and> at_object_boundary cs then Some 1 else map_option Suc (object_end cs))"

fun object_matches :: "jsstring \<Rightarrow> jsstring list" where
  "object_matches [] = []"
| "object_matches (c # cs) =
     (if c = 123 then
        (case object_end cs of
           Some n \<Rightarrow> (c # take n cs) # object_matches (drop n cs)
         | None \<Rightarrow> object_matches cs)
      else object_matches cs)"

fun parsed_matches :: "parser \<Rightarrow> jsstring list \<Rightarrow> json list" where
  "parsed_matches parse [] = []"
| "parsed_matches parse (m # ms) =
     (case parse m of
        Returns v \<Rightarrow> v # parsed_matches parse ms
      | Throws \<Rightarrow> parsed_matches parse ms)"

text \<open>
  The function, attempt after attempt as the source has them. In attempt 3 the parse
  of the joined lines is inside the \<open>try\<close>: when it throws, the attempt is over and
  the single lines are not tried.
\<close>

definition parseAIResponse :: "parser \<Rightarrow> json \<Rightarrow> json outcome" where
  "parseAIResponse parse response =
     (case response of
        JStr text \<Rightarrow>
          (let clean = cleanResponse text in
           case parse clean of
             Returns v \<Rightarrow> Returns v
           | Throws \<Rightarrow>
               (case first_parse parse (array_attempts (array_candidate clean)) of
                  Some v \<Rightarrow> Returns v
                | None \<Rightarrow>
                    (let lines = json_lines clean;
                         attempt3 =
                           (if lines = [] then None
                            else if starts_with (hd lines) [91] then
                              (case parse (join_arrays (concat lines)) of
                                 Returns v \<Rightarrow> Some v
                               | Throws \<Rightarrow> None)
                            else
                              (let objects = parsed_lines parse lines in
                               if objects \<noteq> [] then Some (JArr objects) else None))
                     in case attempt3 of
                          Some v \<Rightarrow> Returns v
                        | None \<Rightarrow>
                            (let jsonObjects = parsed_matches parse (object_matches clean) in
                             if jsonObjects \<noteq> [] then Returns (JArr jsonObjects)
                             else
                               (case parse clean of
                                  Returns v \<Rightarrow> Returns (JArr [v])
                                | Throws \<Rightarrow> Throws)))))
      | _ \<Rightarrow> Throws)"

text \<open>
  The same function as the claim words it: the cleaned text, then four fallbacks, each
  the value it returns or \<open>None\<close> when it fails, and the first of them that succeeds.
  \<open>parsed_value\<close> is the value of a text that parses, \<open>those_parsed\<close> the values of the texts
  of a list that parse.
\<close>

definition parsed_value :: "parser \<Rightarrow> jsstring \<Rightarrow> json option" where
  "parsed_value parse s = (case parse s of Returns v \<Rightarrow> Some v | Throws \<Rightarrow> None)"

definition those_parsed :: "parser \<Rightarrow> jsstring list \<Rightarrow> json list" where
  "those_parsed parse texts = concat (map (\<lambda>s. case parse s of Returns v \<Rightarrow> [v] | Throws \<Rightarrow> []) texts)"

fun first_success :: "'a option list \<Rightarrow> 'a option" where
  "first_success [] = None"
| "first_success (None # xs) = first_success xs"
| "first_success (Some v # xs) = Some v"

text \<open>
  The array substring with the bracket and comma fixes: the substring as it is, with
  \<open>]\<close> added, put between \<open>[\<close> and \<open>]\<close>, without its final comma and with \<open>]\<close>
  added, without its final comma, with its final \<open>]\<close> written anew, and with \<open>]\<close>
  added after its final \<open>}\<close>.
\<close>

definition array_fallback :: "parser \<Rightarrow> jsstring \<Rightarrow> json option" where
  "array_fallback parse clean =
     (let k = array_candidate clean in
      first_success
        (map (parsed_value parse)
           [k, k @ [93], [91] @ k @ [93], drop_final 44 k @ [93], drop_final 44 k,
            drop_final 93 k @ [93], close_final_brace k]))"

text \<open>
  Line by line: of the trimmed lines, those that begin with \<open>{\<close> or \<open>[\<close>. When the
  first of them begins with \<open>[\<close> they are arrays to be joined into one; otherwise
  every line that parses, a comma before its closing brace dropped, is an element of
  the result.
\<close>

definition ndjson_fallback :: "parser \<Rightarrow> jsstring \<Rightarrow> json option" where
  "ndjson_fallback parse clean =
     (let lines = filter (\<lambda>l. l \<noteq> [] \<and> (hd l = 123 \<or> hd l = 91)) (map trim (split_lines [] clean)) in
      if lines = [] then None
      else if hd (hd lines) = 91 then parsed_value parse (join_arrays (concat lines))
      else
        (case those_parsed parse (map drop_comma_before_brace lines) of
           [] \<Rightarrow> None
         | objects \<Rightarrow> Some (JArr objects)))"

text \<open>The objects the regular expression finds, those that parse.\<close>

definition objects_fallback :: "parser \<Rightarrow> jsstring \<Rightarrow> json option" where
  "objects_fallback parse clean =
     (case those_parsed parse (object_matches clean) of
        [] \<Rightarrow> None
      | objects \<Rightarrow> Some (JArr objects))"

text \<open>The cleaned text as a single object, wrapped in an array.\<close>

definition wrap_fallback :: "parser \<Rightarrow> jsstring \<Rightarrow> json option" where
  "wrap_fallback parse clean = map_option (\<lambda>v. JArr [v]) (parsed_value parse clean)"

definition fallbacks :: "parser \<Rightarrow> jsstring \<Rightarrow> json option list" where
  "fallbacks parse clean =
     [array_fallback parse clean, ndjson_fallback parse clean, objects_fallback parse clean,
      wrap_fallback parse clean]"

text \<open>
  What the regular expressions of the function look for, said of the text itself: a
  code fence somewhere in it; a closing bracket that only white space separates from
  an opening one; the place of the first and of the last occurrence of a code unit.
\<close>

definition has_fence :: "jsstring \<Rightarrow> bool" where
  "has_fence s \<longleftrightarrow> (\<exists>a b. s = a @ [96, 96, 96] @ b)"

definition has_seam :: "jsstring \<Rightarrow> bool" where
  "has_seam s \<longleftrightarrow> (\<exists>a w b. s = a @ [93] @ w @ [91] @ b \<and> list_all is_space w)"

definition first_at :: "nat \<Rightarrow> jsstring \<Rightarrow> nat \<Rightarrow> bool" where
  "first_at c s i \<longleftrightarrow> i < length s \<and> s ! i = c \<and> c \<notin> set (take i s)"

definition last_at :: "nat \<Rightarrow> jsstring \<Rightarrow> nat \<Rightarrow> bool" where
  "last_at c s i \<longleftrightarrow> i < length s \<and> s ! i = c \<and> c \<notin> set (drop (Suc i) s)"

section \<open>Stored files and session preferences\<close>

text \<open>
  The blob store keeps one document per file in \<open>excelFiles.files\<close>; the collection
  \<open>sessionMetadata\<close> keeps the combine preferences of a session. Times are
  milliseconds, identifiers are the hexadecimal text of the ObjectId.
\<close>

record file_metadata =
  md_userId :: string
  md_uploadedAt :: nat
  md_sessionId :: string
  md_isCombined :: bool
  md_sourceFileIds :: "string option"
  md_requestStartTime :: "nat option"

record file_doc =
  doc_id :: string
  doc_filename :: string
  doc_contentType :: "string option"
  doc_metadata :: file_metadata
  doc_bytes :: "nat list"

text \<open>The client's interface \<open>SessionMetadata\<close>.\<close>

record SessionMetadata =
  combineData :: bool
  joinType :: string
  customPrompt :: string

record session_doc =
  sd_sessionId :: string
  sd_combineData :: "bool option"
  sd_joinType :: "string option"
  sd_customPrompt :: "string option"
  sd_updatedAt :: nat

record database =
  excelFiles :: "file_doc list"
  sessionMetadata :: "session_doc list"

text \<open>
  What a handler finds around it: the connection string, whether the database answers,
  the clock, and the identifier the driver gives to the next stored file.
\<close>

record server_env =
  env_MONGODB_URI :: "string option"
  env_db_up :: bool
  env_now :: nat
  env_new_id :: string

record response =
  status :: nat
  body :: json

definition error_response :: "nat \<Rightarrow> string \<Rightarrow> response" where
  "error_response code msg = \<lparr>status = code, body = JObj [(js ''error'', JStr (js msg))]\<rparr>"

text \<open>A string is falsy when it is missing or empty.\<close>

fun present :: "string option \<Rightarrow> bool" where
  "present None = False"
| "present (Some s) = (s \<noteq> [])"

subsection \<open>Upload\<close>

definition to_lower :: "char \<Rightarrow> char" where
  "to_lower c =
     (case map_of (zip ''ABCDEFGHIJKLMNOPQRSTUVWXYZ'' ''abcdefghijklmnopqrstuvwxyz'') c of
        Some l \<Rightarrow> l
      | None \<Rightarrow> c)"

definition ends_with :: "string \<Rightarrow> string \<Rightarrow> bool" where
  "ends_with s e = (length e \<le> length s \<and> drop (length s - length e) s = e)"

text \<open>\<open>/\.(xlsx|xls|csv)$/i\<close>\<close>

definition validExtensions :: "string \<Rightarrow> bool" where
  "validExtensions name =
     (let n = map to_lower name in ends_with n ''.xlsx'' \<or> ends_with n ''.xls'' \<or> ends_with n ''.csv'')"

record upload_request =
  up_auth :: "string option"
  up_file :: "(string \<times> nat list) option"
  up_sessionId :: "string option"

definition upload_POST :: "server_env \<Rightarrow> database \<Rightarrow> upload_request \<Rightarrow> response \<times> database" where
  "upload_POST env db req =
     (if \<not> present (up_auth req) then (error_response 401 ''Unauthorized'', db)
      else if \<not> present (env_MONGODB_URI env) then
        (error_response 500 ''Upload failed: MONGODB_URI missing in .env.local'', db)
      else if \<not> env_db_up env then (error_response 500 ''Upload failed'', db)
      else case up_file req of
        None \<Rightarrow> (error_response 400 ''No file uploaded'', db)
      | Some (name, bytes) \<Rightarrow>
          if \<not> present (up_sessionId req) then (error_response 400 ''Missing session ID'', db)
          else if \<not> validExtensions name then
            (error_response 400 ''Only Excel/CSV files allowed'', db)
          else
            let doc = \<lparr>doc_id = env_new_id env, doc_filename = name, doc_contentType = None,
                       doc_metadata = \<lparr>md_userId = the (up_auth req), md_uploadedAt = env_now env,
                                        md_sessionId = the (up_sessionId req), md_isCombined = False,
                                        md_sourceFileIds = None, md_requestStartTime = None\<rparr>,
                       doc_bytes = bytes\<rparr>
            in (\<lparr>status = 200,
                 body = JObj [(js ''message'', JStr (js ''File uploaded successfully'')),
                              (js ''fileId'', JStr (js (env_new_id env))),
                              (js ''filename'', JStr (js name)),
                              (js ''sessionId'', JStr (js (the (up_sessionId req))))]\<rparr>,
                db\<lparr>excelFiles := excelFiles db @ [doc]\<rparr>))"

subsection \<open>Session preferences\<close>

text \<open>
  \<open>updateOne(filter, {$set: ...}, {upsert: true})\<close> changes the first document the
  filter matches and inserts one when there is none.
\<close>

fun update_first :: "('a \<Rightarrow> bool) \<Rightarrow> ('a \<Rightarrow> 'a) \<Rightarrow> 'a list \<Rightarrow> 'a list option" where
  "update_first p f [] = None"
| "update_first p f (x # xs) =
     (if p x then Some (f x # xs) else map_option ((#) x) (update_first p f xs))"

definition upsert :: "('a \<Rightarrow> bool) \<Rightarrow> ('a \<Rightarrow> 'a) \<Rightarrow> 'a \<Rightarrow> 'a list \<Rightarrow> 'a list" where
  "upsert p f fresh xs = (case update_first p f xs of Some ys \<Rightarrow> ys | None \<Rightarrow> xs @ [f fresh])"

definition set_session_fields :: "SessionMetadata option \<Rightarrow> nat \<Rightarrow> session_doc \<Rightarrow> session_doc" where
  "set_session_fields md now d =
     (case md of
        None \<Rightarrow> d\<lparr>sd_updatedAt := now\<rparr>
      | Some m \<Rightarrow> d\<lparr>sd_combineData := Some (combineData m), sd_joinType := Some (joinType m),
                     sd_customPrompt := Some (customPrompt m), sd_updatedAt := now\<rparr>)"

definition session_POST ::
  "server_env \<Rightarrow> database \<Rightarrow> string option \<Rightarrow> SessionMetadata option \<Rightarrow> response \<times> database" where
  "session_POST env db sid md =
     (if \<not> present sid then (error_response 400 ''Session ID is required'', db)
      else if \<not> present (env_MONGODB_URI env) then
        (error_response 500 ''Failed to save metadata: MONGODB_URI missing in .env.local'', db)
      else if \<not> env_db_up env then (error_response 500 ''Failed to save metadata'', db)
      else
        (\<lparr>status = 200, body = JObj [(js ''success'', JBool True)]\<rparr>,
         db\<lparr>sessionMetadata :=
               upsert (\<lambda>d. sd_sessionId d = the sid) (set_session_fields md (env_now env))
                 \<lparr>sd_sessionId = the sid, sd_combineData = None, sd_joinType = None,
                  sd_customPrompt = None, sd_updatedAt = env_now env\<rparr>
                 (sessionMetadata db)\<rparr>))"

text \<open>
  The combine operation reads the preferences back: \<open>findOne({sessionId})\<close>, then
  \<open>sessionMetadata?.combineData || false\<close>, \<open>sessionMetadata?.joinType || ""\<close>,
  \<open>sessionMetadata?.customPrompt || ""\<close>.
\<close>

definition or_false :: "bool option \<Rightarrow> bool" where
  "or_false b = (case b of Some True \<Rightarrow> True | _ \<Rightarrow> False)"

definition or_empty :: "string option \<Rightarrow> string" where
  "or_empty s = (case s of Some t \<Rightarrow> (if t = [] then [] else t) | None \<Rightarrow> [])"

definition combine_preferences :: "database \<Rightarrow> string \<Rightarrow> SessionMetadata" where
  "combine_preferences db sid =
     (case find (\<lambda>d. sd_sessionId d = sid) (sessionMetadata db) of
        None \<Rightarrow> \<lparr>combineData = False, joinType = [], customPrompt = []\<rparr>
      | Some d \<Rightarrow> \<lparr>combineData = or_false (sd_combineData d), joinType = or_empty (sd_joinType d),
                   customPrompt = or_empty (sd_customPrompt d)\<rparr>)"

text \<open>A number written in decimal digits.\<close>

function decimal :: "nat \<Rightarrow> string" where
  "decimal n =
     (if n < 10 then [''0123456789'' ! n] else decimal (n div 10) @ [''0123456789'' ! (n mod 10)])"
  by pat_completeness auto
termination
  by (relation "measure id") auto

section \<open>The combine service\<close>

text \<open>
  The prompt is the fixed instruction text followed by the description of every
  dataset and the two optional requirements; the record keeps the parts that vary.
  Downloading a stored file, reading a workbook and writing one (ExcelJS), and the
  model reached over HTTP are not the handler's own: it gets them from \<open>combine_env\<close>.
\<close>

record combine_prompt =
  cp_datasets :: "string list"
  cp_joinType :: "string option"
  cp_customPrompt :: "string option"

text \<open>
  What the call to the model API ends in: the request aborted by the timer, a status
  that is not ok, a body that is not the expected envelope, or the text of
  \<open>choices[0].message.content\<close>, trimmed.
\<close>

datatype api_result = ApiAborted | ApiNotOk | ApiBadEnvelope | ApiContent jsstring

text \<open>
  A worksheet that has been read is its rows, a row its cells: the text \<open>join\<close>
  gives the value of a cell, \<open>None\<close> for an empty cell. The sheet the handler writes
  gets a row of headers and then, for every record, the values the record has under
  these headers.
\<close>

type_synonym worksheet = "string option list list"

datatype sheet_row = Header "jsstring list" | Record "jsstring list" json

record combine_env =
  ce_MONGODB_URI :: "string option"
  ce_OPENROUTER_API_KEY :: "string option"
  ce_auth :: "string option"
  ce_db_up :: bool
  ce_requestStartTime :: nat
  ce_storedAt :: nat
  ce_new_id :: string
  ce_download_ok :: "string \<Rightarrow> bool"
  ce_csv_read :: "nat list \<Rightarrow> worksheet list outcome"
  ce_xlsx_load :: "nat list \<Rightarrow> worksheet list outcome"
  ce_api :: "combine_prompt \<Rightarrow> api_result"
  ce_parse :: parser
  ce_writeBuffer :: "sheet_row list \<Rightarrow> nat list outcome"
  ce_upload_ok :: bool

text \<open>
  The state a request works on: the database, the module's \<open>processingLocks\<close>, and
  the prompts sent to the model so far.
\<close>

record combine_state =
  cs_db :: database
  cs_locks :: "string list"
  cs_api_calls :: "combine_prompt list"

fun join_with :: "string \<Rightarrow> string list \<Rightarrow> string" where
  "join_with sep [] = []"
| "join_with sep [x] = x"
| "join_with sep (x # y # ys) = x @ sep @ join_with sep (y # ys)"

text \<open>
  The files of the user and session uploaded up to the start of the request, newest
  first, and \<open>recentFiles.map(file => file._id.toString()).sort().join(',')\<close>.
\<close>

definition recentFiles :: "database \<Rightarrow> string \<Rightarrow> string \<Rightarrow> nat \<Rightarrow> file_doc list" where
  "recentFiles db userId sessionId requestStartTime =
     rev (sort_key (\<lambda>f. md_uploadedAt (doc_metadata f))
       (filter (\<lambda>f. md_userId (doc_metadata f) = userId \<and> md_sessionId (doc_metadata f) = sessionId \<and>
                    md_uploadedAt (doc_metadata f) \<le> requestStartTime)
          (excelFiles db)))"

definition fileIds_of :: "file_doc list \<Rightarrow> string" where
  "fileIds_of files = join_with '','' (sort (map doc_id files))"

definition existingCombinedFile :: "database \<Rightarrow> string \<Rightarrow> string \<Rightarrow> string \<Rightarrow> file_doc option" where
  "existingCombinedFile db userId sessionId fileIds =
     find (\<lambda>f. md_userId (doc_metadata f) = userId \<and> md_sessionId (doc_metadata f) = sessionId \<and>
                md_sourceFileIds (doc_metadata f) = Some fileIds \<and> md_isCombined (doc_metadata f))
       (excelFiles db)"

text \<open>
  The description of one stored file. \<open>worksheet.getRow(i)\<close> gives an empty row past
  the last one; \<open>eachCell({ includeEmpty: false }, ...)\<close> visits the cells that hold
  a value; the sample is the rows 2 to \<open>Math.min(worksheet.rowCount, 4)\<close>.
\<close>

definition getRow :: "worksheet \<Rightarrow> nat \<Rightarrow> string option list" where
  "getRow ws i = (if 1 \<le> i \<and> i \<le> length ws then ws ! (i - 1) else [])"

definition cell_values :: "string option list \<Rightarrow> string list" where
  "cell_values row = map the (filter (\<lambda>c. c \<noteq> None) row)"

definition dataset_text :: "string \<Rightarrow> worksheet \<Rightarrow> string" where
  "dataset_text filename ws =
     ''[File: '' @ filename @ '']'' @ [CHR 0x0A] @
     ''Columns: '' @ join_with '', '' (cell_values (getRow ws 1)) @ [CHR 0x0A] @
     ''Sample Rows:'' @ [CHR 0x0A] @
     concat (map (\<lambda>i. join_with ''|'' (cell_values (getRow ws i)) @ [CHR 0x0A])
               [2..<Suc (min (length ws) 4)])"

text \<open>
  The file is downloaded and read as a workbook, with \<open>workbook.csv.read\<close> when its
  name ends in \<open>.csv\<close> and with \<open>workbook.xlsx.load\<close> otherwise; a download that
  fails, a read that fails and a workbook without a sheet (\<open>worksheets[0]\<close> is
  \<open>undefined\<close>) all throw.
\<close>

definition read_dataset :: "combine_env \<Rightarrow> file_doc \<Rightarrow> string outcome" where
  "read_dataset env file =
     (if \<not> ce_download_ok env (doc_id file) then Throws
      else
        case (if ends_with (map to_lower (doc_filename file)) ''.csv''
              then ce_csv_read env (doc_bytes file)
              else ce_xlsx_load env (doc_bytes file)) of
          Throws \<Rightarrow> Throws
        | Returns [] \<Rightarrow> Throws
        | Returns (worksheet # _) \<Rightarrow> Returns (dataset_text (doc_filename file) worksheet))"

text \<open>\<open>Promise.all\<close>: the results in their order, or a rejection when one of them rejects.\<close>

fun all_of :: "'a outcome list \<Rightarrow> 'a list outcome" where
  "all_of [] = Returns []"
| "all_of (Throws # rs) = Throws"
| "all_of (Returns x # rs) = (case all_of rs of Throws \<Rightarrow> Throws | Returns xs \<Rightarrow> Returns (x # xs))"

text \<open>
  \<open>Object.keys\<close>: a TypeError on \<open>null\<close>, the indices of an array or a string, the
  own keys of an object with those that are array indices first in ascending order,
  nothing on a number or a boolean.
\<close>

definition is_index_key :: "jsstring \<Rightarrow> bool" where
  "is_index_key k =
     (k \<noteq> [] \<and> list_all is_digit_unit k \<and> (k = [48] \<or> hd k \<noteq> 48) \<and> digits_number 0 k < 4294967295)"

definition index_keys :: "nat \<Rightarrow> jsstring list" where
  "index_keys n = map (\<lambda>i. js (decimal i)) [0..<n]"

fun Object_keys :: "json \<Rightarrow> jsstring list outcome" where
  "Object_keys JNull = Throws"
| "Object_keys (JObj kvs) =
     Returns (sort_key (digits_number 0) (filter is_index_key (map fst kvs)) @
              filter (\<lambda>k. \<not> is_index_key k) (map fst kvs))"
| "Object_keys (JArr xs) = Returns (index_keys (length xs))"
| "Object_keys (JStr t) = Returns (index_keys (length t))"
| "Object_keys _ = Returns []"

text \<open>
  The new sheet: \<open>No data combined\<close> for an empty array; otherwise the keys of the
  first record as headers and \<open>headers.map(header => row[header])\<close> for every
  record, which throws on a record that is \<open>null\<close> as soon as there is a header.
\<close>

definition new_sheet :: "json list \<Rightarrow> sheet_row list outcome" where
  "new_sheet combinedData =
     (case combinedData of
        [] \<Rightarrow> Returns [Header [js ''No data combined'']]
      | first # _ \<Rightarrow>
          (case Object_keys first of
             Throws \<Rightarrow> Throws
           | Returns headers \<Rightarrow>
               if headers \<noteq> [] \<and> JNull \<in> set combinedData then Throws
               else Returns (Header headers # map (Record headers) combinedData)))"

text \<open>
  The \<open>catch\<close> block starts with \<open>processingLocks.delete(sessionId)\<close>, and
  \<open>sessionId\<close> is a constant of the \<open>try\<close> block: the block throws before it builds
  its 504 or 500 answer, the lock stays as the \<open>try\<close> block left it, and the framework
  answers 500 without a body.
\<close>

definition unhandled :: response where
  "unhandled = \<lparr>status = 500, body = JNull\<rparr>"

fun optional :: "string \<Rightarrow> string option" where
  "optional s = (if s = [] then None else Some s)"

definition combine_POST ::
  "combine_env \<Rightarrow> combine_state \<Rightarrow> string option \<Rightarrow> response \<times> combine_state" where
  "combine_POST env st sessionId =
     (if \<not> present (ce_MONGODB_URI env) then
        (error_response 500 ''MONGODB_URI missing in environment variables'', st)
      else if \<not> present (ce_OPENROUTER_API_KEY env) then
        (error_response 500 ''OPENROUTER_API_KEY missing in environment variables'', st)
      else if \<not> present (ce_auth env) then (error_response 401 ''Unauthorized'', st)
      else if \<not> present sessionId then (error_response 400 ''Session ID is required'', st)
      else if the sessionId \<in> set (cs_locks st) then
        (error_response 429 ''Combine operation already in progress for this session'', st)
      else
        let sid = the sessionId; userId = the (ce_auth env);
            locked = st\<lparr>cs_locks := sid # cs_locks st\<rparr>;
            unlock = (\<lambda>t. t\<lparr>cs_locks := removeAll sid (cs_locks t)\<rparr>)
        in
        if \<not> ce_db_up env then (unhandled, locked)
        else
          let prefs = combine_preferences (cs_db st) sid;
              recent = recentFiles (cs_db st) userId sid (ce_requestStartTime env);
              fileIds = fileIds_of recent
          in
          case existingCombinedFile (cs_db st) userId sid fileIds of
            Some existing \<Rightarrow>
              (\<lparr>status = 200, body = JObj [(js ''fileId'', JStr (js (doc_id existing)))]\<rparr>, unlock locked)
          | None \<Rightarrow>
              (case all_of (map (read_dataset env) recent) of
                 Throws \<Rightarrow> (unhandled, locked)
               | Returns datasetsText \<Rightarrow>
                   let prompt = \<lparr>cp_datasets = datasetsText,
                                  cp_joinType = optional (joinType prefs),
                                  cp_customPrompt = optional (customPrompt prefs)\<rparr>;
                       called = locked\<lparr>cs_api_calls := cs_api_calls locked @ [prompt]\<rparr>
                   in
                   case ce_api env prompt of
                     ApiAborted \<Rightarrow> (unhandled, called)
                   | ApiNotOk \<Rightarrow> (unhandled, unlock called)
                   | ApiBadEnvelope \<Rightarrow> (unhandled, called)
                   | ApiContent jsonString \<Rightarrow>
                       (case parseAIResponse (ce_parse env) (JStr jsonString) of
                          Throws \<Rightarrow> (unhandled, called)
                        | Returns (JArr combinedData) \<Rightarrow>
                            (case new_sheet combinedData of
                               Throws \<Rightarrow> (unhandled, called)
                             | Returns rows \<Rightarrow>
                                 (case ce_writeBuffer env rows of
                                    Throws \<Rightarrow> (unhandled, called)
                                  | Returns buffer \<Rightarrow>
                                      if \<not> ce_upload_ok env then (unhandled, called)
                                      else
                                        let doc =
                                          \<lparr>doc_id = ce_new_id env,
                                           doc_filename = ''combined-'' @ decimal (ce_storedAt env) @ ''.xlsx'',
                                           doc_contentType =
                                             Some ''application/vnd.openxmlformats-officedocument.spreadsheetml.sheet'',
                                           doc_metadata =
                                             \<lparr>md_userId = userId, md_uploadedAt = ce_storedAt env,
                                              md_sessionId = sid, md_isCombined = True,
                                              md_sourceFileIds = Some fileIds,
                                              md_requestStartTime = Some (ce_requestStartTime env)\<rparr>,
                                           doc_bytes = buffer\<rparr>
                                        in (\<lparr>status = 200, body = JObj [(js ''fileId'', JStr (js (ce_new_id env)))]\<rparr>,
                                            unlock (called\<lparr>cs_db := (cs_db called)\<lparr>excelFiles :=
                                                                   excelFiles (cs_db called) @ [doc]\<rparr>\<rparr>))))
                        | Returns _ \<Rightarrow> (unhandled, unlock called))))"

section \<open>Margin analysis endpoints\<close>

text \<open>
  A parsed file is its column names and its rows, each row giving a text to every
  column. Parsing the file, the ObjectId of a text (\<open>None\<close> when the text is not a
  valid identifier, which is also when \<open>ObjectId.isValid\<close> is false) and the model
  are the libraries'.
\<close>

type_synonym row = "(string \<times> string) list"

datatype analysis_key = ByFile string string | ByRun string string

record analysis_doc =
  an_key :: analysis_key
  an_fields :: "(jsstring \<times> json) list"

record margin_state =
  ms_files :: "file_doc list"
  ms_analyses :: "analysis_doc list"
  ms_model_calls :: nat

text \<open>\<open>updateOne(key, {$set: fields}, {upsert: true})\<close> on the collection \<open>analyses\<close>.\<close>

definition set_fields :: "(jsstring \<times> json) list \<Rightarrow> analysis_doc \<Rightarrow> analysis_doc" where
  "set_fields kvs d = d\<lparr>an_fields := fold (\<lambda>(k, v). obj_set k v) kvs (an_fields d)\<rparr>"

definition upsert_analysis ::
  "analysis_key \<Rightarrow> (jsstring \<times> json) list \<Rightarrow> analysis_doc list \<Rightarrow> analysis_doc list" where
  "upsert_analysis key kvs docs =
     upsert (\<lambda>d. an_key d = key) (set_fields kvs) \<lparr>an_key = key, an_fields = []\<rparr> docs"

definition trim_chars :: "string \<Rightarrow> string" where
  "trim_chars s =
     rev (dropWhile (\<lambda>c. is_space (of_char c)) (rev (dropWhile (\<lambda>c. is_space (of_char c)) s)))"

definition json_of_row :: "row \<Rightarrow> json" where
  "json_of_row r = JObj (map (\<lambda>(k, v). (js k, JStr (js v))) r)"

subsection \<open>Cost analysis\<close>

record costs_prompt =
  kp_columns :: "string list"
  kp_sampleData :: "row list"
  kp_cost_fields :: json
  kp_margin_thresholds :: json

record costs_env =
  xe_MONGODB_URI :: "string option"
  xe_VERTEX_AI_PROJECT :: "string option"
  xe_VERTEX_AI_LOCATION :: "string option"
  xe_ObjectId :: "string \<Rightarrow> string option"
  xe_auth :: "string option"
  xe_db_up :: bool
  xe_download_ok :: bool
  xe_processFileData :: "file_doc \<Rightarrow> (string list \<times> row list) outcome"
  xe_vertex_ready :: bool
  xe_generateContent :: "costs_prompt \<Rightarrow> jsstring option outcome"
  xe_parse :: parser
  xe_write_ok :: bool
  xe_now :: nat

record costs_request =
  rq_query_fileId :: "string option"
  rq_body_fileId :: "string option"
  rq_cost_fields :: "json option"
  rq_margin_thresholds :: "json option"

text \<open>\<open>(process.env.X || fallback).toString().trim()\<close>\<close>

definition setting :: "string option \<Rightarrow> string \<Rightarrow> string" where
  "setting v fallback = trim_chars (if present v then the v else fallback)"

text \<open>\<open>(qFileId && qFileId.trim()) || (body?.fileId && String(body.fileId).trim()) || null\<close>\<close>

definition trimmed :: "string option \<Rightarrow> string option" where
  "trimmed v = (if present v \<and> trim_chars (the v) \<noteq> [] then Some (trim_chars (the v)) else None)"

definition request_fileId :: "costs_request \<Rightarrow> string option" where
  "request_fileId req =
     (case trimmed (rq_query_fileId req) of
        Some q \<Rightarrow> Some q
      | None \<Rightarrow> trimmed (rq_body_fileId req))"

text \<open>
  The analysis the handler makes up when the reply does not parse. \<open>Math.floor\<close> of
  the row count times 0.2, 0.1, 0.3 and 0.6 is written with whole-number division.
\<close>

definition worst_performer :: "nat \<Rightarrow> row \<Rightarrow> json" where
  "worst_performer i r =
     JObj [(js ''product_id'',
              JStr (js (case map_of r ''product_id'' of
                          Some v \<Rightarrow> (if v = [] then ''P'' @ decimal (i + 1) else v)
                        | None \<Rightarrow> ''P'' @ decimal (i + 1)))),
           (js ''margin_pct'', JNum (15 - of_nat i * 3)),
           (js ''revenue_impact'', JNum (1000 + of_nat i * 500)),
           (js ''cost'', JNum (80 + of_nat i * 10)),
           (js ''net_price'', JNum (95 + of_nat i * 5))]"

definition fallback_analysis :: "row list \<Rightarrow> json" where
  "fallback_analysis data =
     JObj [(js ''total_products'', JNum (of_nat (length data))),
           (js ''avg_margin_pct'', JNum 25),
           (js ''negative_margin_count'', JNum 0),
           (js ''below_target_count'', JNum (of_nat (length data * 2 div 10))),
           (js ''margin_distribution'',
              JObj [(js ''negative'', JNum 0),
                    (js ''0-10%'', JNum (of_nat (length data div 10))),
                    (js ''10-30%'', JNum (of_nat (length data * 3 div 10))),
                    (js ''30%+'', JNum (of_nat (length data * 6 div 10)))]),
           (js ''worst_performers'',
              JArr (map (\<lambda>(i, r). worst_performer i r) (enumerate 0 (take 5 data)))),
           (js ''cost_insights'',
              JArr [JStr (js ''Cost margin analysis completed''),
                    JStr (js ''Review products with margins below target threshold'')]),
           (js ''sql'',
              JStr (js (''SELECT product_id, cost, net_price, (net_price - cost) / net_price * 100 '' @
                        ''as margin_pct FROM pricing_data WHERE (net_price - cost) / net_price * 100 < 10''))),
           (js ''samples'', JArr (map json_of_row (take 5 data)))]"

text \<open>
  \<open>{ status: "success", step: ..., ...parsedAnalysis }\<close>: the properties of the parsed
  value are written over the two given ones. An array spreads its elements under
  their indices, a string its code units, any other value nothing.
\<close>

definition spread :: "json \<Rightarrow> (jsstring \<times> json) list" where
  "spread v =
     (case v of
        JObj kvs \<Rightarrow> kvs
      | JArr xs \<Rightarrow> map (\<lambda>(i, x). (js (decimal i), x)) (enumerate 0 xs)
      | JStr t \<Rightarrow> map (\<lambda>(i, c). (js (decimal i), JStr [c])) (enumerate 0 t)
      | _ \<Rightarrow> [])"

definition step_response :: "string \<Rightarrow> json \<Rightarrow> response" where
  "step_response step parsed =
     \<lparr>status = 200,
      body = JObj (fold (\<lambda>(k, v). obj_set k v) (spread parsed)
               [(js ''status'', JStr (js ''success'')), (js ''step'', JStr (js step))])\<rparr>"

text \<open>
  The prompt: the columns, the first 50 rows, and the cost fields and margin
  thresholds of the request or their defaults.
\<close>

definition costs_prompt_of :: "costs_request \<Rightarrow> string list \<Rightarrow> row list \<Rightarrow> costs_prompt" where
  "costs_prompt_of req columns data =
     \<lparr>kp_columns = columns, kp_sampleData = take 50 data,
      kp_cost_fields =
        first_of [rq_cost_fields req] (JArr [JStr (js ''cost''), JStr (js ''cogs''), JStr (js ''unit_cost'')]),
      kp_margin_thresholds =
        first_of [rq_margin_thresholds req]
          (JObj [(js ''min_margin_pct'', JNum 10), (js ''target_margin_pct'', JNum 30)])\<rparr>"

text \<open>\<open>responseText ?? "No analysis generated"\<close>\<close>

definition analysisRaw_of :: "jsstring option \<Rightarrow> jsstring" where
  "analysisRaw_of responseText =
     (case responseText of Some t \<Rightarrow> t | None \<Rightarrow> js ''No analysis generated'')"

definition costs_POST ::
  "costs_env \<Rightarrow> margin_state \<Rightarrow> costs_request \<Rightarrow> response \<times> margin_state" where
  "costs_POST env st req =
     (if \<not> present (xe_MONGODB_URI env) then
        (error_response 500 ''MONGODB_URI missing in environment variables'', st)
      else if setting (xe_VERTEX_AI_PROJECT env) ''neural-land-469712-t7'' = [] \<or>
              setting (xe_VERTEX_AI_LOCATION env) ''us-central1'' = [] then
        (error_response 500 ''Vertex AI configuration missing in environment variables'', st)
      else case request_fileId req of
        None \<Rightarrow> (error_response 400 ''Invalid or missing fileId'', st)
      | Some fileId \<Rightarrow>
          (case xe_ObjectId env fileId of
             None \<Rightarrow> (error_response 400 ''Invalid or missing fileId'', st)
           | Some oid \<Rightarrow>
               if \<not> present (xe_auth env) then (error_response 401 ''Unauthorized'', st)
               else if \<not> xe_db_up env then (error_response 500 ''Internal server error'', st)
               else
                 (case find (\<lambda>f. doc_id f = oid \<and> md_userId (doc_metadata f) = the (xe_auth env))
                         (ms_files st) of
                    None \<Rightarrow> (error_response 404 ''File not found or access denied'', st)
                  | Some file \<Rightarrow>
                      if \<not> xe_download_ok env then (error_response 500 ''Failed to download file'', st)
                      else
                        (case xe_processFileData env file of
                           Throws \<Rightarrow> (error_response 500 ''Internal server error'', st)
                         | Returns (columns, data) \<Rightarrow>
                             if columns = [] \<or> data = [] then
                               (error_response 400 ''No valid data found in file'', st)
                             else if \<not> xe_vertex_ready env then
                               (error_response 500 ''Vertex AI initialization failed'', st)
                             else
                               let prompt = costs_prompt_of req columns data;
                                   called = st\<lparr>ms_model_calls := ms_model_calls st + 1\<rparr>
                               in
                               case xe_generateContent env prompt of
                                 Throws \<Rightarrow> (error_response 500 ''Vertex AI error'', called)
                               | Returns responseText \<Rightarrow>
                                   let analysisRaw = analysisRaw_of responseText;
                                       parsedAnalysis =
                                         (case xe_parse env analysisRaw of
                                            Returns v \<Rightarrow> v
                                          | Throws \<Rightarrow> fallback_analysis data);
                                       stored =
                                         (if xe_write_ok env then
                                            called\<lparr>ms_analyses :=
                                              upsert_analysis (ByFile oid (the (xe_auth env)))
                                                [(js ''analysis'', JStr analysisRaw),
                                                 (js ''parsed'', parsedAnalysis),
                                                 (js ''updatedAt'', JNum (of_nat (xe_now env)))]
                                                (ms_analyses called)\<rparr>
                                          else called)
                                   in (step_response ''cost_analysis'' parsedAnalysis, stored)))))"

subsection \<open>Logical checks\<close>

text \<open>
  \<open>callGeminiWithRetry\<close>: up to three attempts, each with a second call that repeats
  the prompt with a reminder when the first reply holds no JSON object and another
  attempt is left. The model's answer to the \<open>n\<close>-th call is \<open>gen n\<close>. The result is
  the last raw text, the parsed object (\<open>JNull\<close> for none) and the number of calls.
\<close>

datatype gen_result = GenThrows jsstring | GenText "jsstring option"

definition reply_text :: "jsstring option \<Rightarrow> jsstring" where
  "reply_text t = trim (case t of Some x \<Rightarrow> x | None \<Rightarrow> [])"

fun callGeminiWithRetry ::
  "(nat \<Rightarrow> gen_result) \<Rightarrow> parser \<Rightarrow> nat \<Rightarrow> nat \<Rightarrow> jsstring \<Rightarrow> jsstring \<times> json \<times> nat" where
  "callGeminiWithRetry gen parse 0 calls lastRaw = (lastRaw, JNull, calls)"
| "callGeminiWithRetry gen parse (Suc left) calls lastRaw =
     (case gen calls of
        GenThrows msg \<Rightarrow>
          callGeminiWithRetry gen parse left (calls + 1) (if lastRaw \<noteq> [] then lastRaw else msg)
      | GenText t \<Rightarrow>
          let raw = reply_text t; parsed = extractFirstJsonObj parse raw in
          if truthy parsed then (raw, parsed, calls + 1)
          else if 0 < left then
            (case gen (calls + 1) of
               GenThrows msg \<Rightarrow>
                 callGeminiWithRetry gen parse left (calls + 2) (if raw \<noteq> [] then raw else msg)
             | GenText t2 \<Rightarrow>
                 let raw2 = reply_text t2; parsed2 = extractFirstJsonObj parse raw2 in
                 if truthy parsed2 then (raw2, parsed2, calls + 2)
                 else callGeminiWithRetry gen parse left (calls + 2) raw2)
          else callGeminiWithRetry gen parse left (calls + 1) raw)"

record logical_env =
  le_auth :: "string option"
  le_db_up :: bool
  le_ObjectId :: "string \<Rightarrow> string option"
  le_download_ok :: bool
  le_processFileBuffer :: "file_doc \<Rightarrow> (string list \<times> row list) outcome"
  le_vertex_ready :: bool
  le_generateContent :: "nat \<Rightarrow> gen_result"
  le_parse :: parser
  le_write_ok :: bool
  le_now :: nat

record logical_request =
  lq_fileId :: "string option"
  lq_runId :: "string option"

text \<open>\<open>x || d\<close> on a property that may be missing.\<close>

definition or_else :: "json option \<Rightarrow> json \<Rightarrow> json" where
  "or_else x d = (case x of Some v \<Rightarrow> (if truthy v then v else d) | None \<Rightarrow> d)"

text \<open>\<open>k in o\<close> for one of the property names the handler asks for.\<close>

definition has_key :: "json \<Rightarrow> string \<Rightarrow> bool" where
  "has_key v k = (get_field v (js k) \<noteq> None)"

definition is_object :: "json \<Rightarrow> bool" where
  "is_object v = (case v of JObj _ \<Rightarrow> True | JArr _ \<Rightarrow> True | _ \<Rightarrow> False)"

definition logical_result :: "json \<Rightarrow> (jsstring \<times> json) list" where
  "logical_result parsed =
     [(js ''status'', or_else (get_field parsed (js ''status'')) (JStr (js ''success''))),
      (js ''insights'', or_else (get_field parsed (js ''insights'')) (JArr [])),
      (js ''sql'', or_else (get_field parsed (js ''sql'')) (JStr [])),
      (js ''samples'', or_else (get_field parsed (js ''samples'')) (JArr []))]"

definition status_response :: "nat \<Rightarrow> string \<Rightarrow> response" where
  "status_response code msg =
     \<lparr>status = code, body = JObj [(js ''status'', JStr (js ''error'')), (js ''error'', JStr (js msg))]\<rparr>"

definition logical_POST ::
  "logical_env \<Rightarrow> margin_state \<Rightarrow> logical_request \<Rightarrow> response \<times> margin_state" where
  "logical_POST env st req =
     (if \<not> present (le_auth env) then (status_response 401 ''Unauthorized'', st)
      else if \<not> present (lq_fileId req) then (status_response 400 ''fileId required'', st)
      else if \<not> le_db_up env then (status_response 500 ''Failed to run logical checks'', st)
      else case le_ObjectId env (the (lq_fileId req)) of
        None \<Rightarrow> (status_response 500 ''Failed to run logical checks'', st)
      | Some oid \<Rightarrow>
          (case find (\<lambda>f. doc_id f = oid \<and> md_userId (doc_metadata f) = the (le_auth env))
                  (ms_files st) of
             None \<Rightarrow> (status_response 404 ''File not found'', st)
           | Some fileDoc \<Rightarrow>
               if \<not> le_download_ok env then (status_response 500 ''Failed to run logical checks'', st)
               else
                 (case le_processFileBuffer env fileDoc of
                    Throws \<Rightarrow> (status_response 500 ''Failed to run logical checks'', st)
                  | Returns (columns, data) \<Rightarrow>
                      if \<not> le_vertex_ready env then
                        (status_response 500 ''Failed to run logical checks'', st)
                      else
                        (case callGeminiWithRetry (le_generateContent env) (le_parse env) 3 0 [] of
                           (raw, parsed, calls) \<Rightarrow>
                             let called = st\<lparr>ms_model_calls := ms_model_calls st + calls\<rparr> in
                             if raw = [] then (status_response 500 ''No response from model'', called)
                             else if \<not> truthy parsed \<or> \<not> is_object parsed then
                               (status_response 502 ''Failed to parse JSON from model response'', called)
                             else if \<not> has_key parsed ''insights'' \<or> \<not> has_key parsed ''samples'' \<or>
                                     \<not> has_key parsed ''sql'' then
                               (status_response 502 ''Model returned invalid JSON shape'', called)
                             else
                               (\<lparr>status = 200, body = JObj (logical_result parsed)\<rparr>,
                                if present (lq_runId req) \<and> le_write_ok env then
                                  called\<lparr>ms_analyses :=
                                    upsert_analysis (ByRun (the (lq_runId req)) (the (le_auth env)))
                                      [(js ''steps.logical'',
                                          JObj (logical_result parsed @
                                                [(js ''updatedAt'', JNum (of_nat (le_now env)))])),
                                       (js ''updatedAt'', JNum (of_nat (le_now env)))]
                                      (ms_analyses called)\<rparr>
                                else called)))))"

subsection \<open>Requests for a file\<close>

text \<open>
  The cost handler is configured when the connection string is set and the two
  Vertex settings are not blank. \<open>owned_file\<close> is the lookup both handlers make:
  the file of that identifier whose metadata names the user.
\<close>

definition configured :: "costs_env \<Rightarrow> bool" where
  "configured env \<longleftrightarrow>
     present (xe_MONGODB_URI env) \<and> setting (xe_VERTEX_AI_PROJECT env) ''neural-land-469712-t7'' \<noteq> [] \<and>
     setting (xe_VERTEX_AI_LOCATION env) ''us-central1'' \<noteq> []"

definition owned_file :: "file_doc list \<Rightarrow> string \<Rightarrow> string \<Rightarrow> file_doc option" where
  "owned_file files oid user = find (\<lambda>f. doc_id f = oid \<and> md_userId (doc_metadata f) = user) files"

section \<open>The pipeline loader\<close>

text \<open>
  The component \<open>MarginLoaderSequence\<close>. Its timers only delay the next call, so a run
  is the chain of calls they make. \<open>lo_network n\<close> is how the \<open>n\<close>-th \<open>fetch\<close> of a
  step ends; \<open>lo_render\<close> is the text a value gets inside a template literal and
  \<open>lo_type_error\<close> the message of a TypeError, both the platform's.
\<close>

datatype step_id = Pricing | Costs | Leakage | Segments | Recommendations

definition MARGIN_STEPS :: "step_id list" where
  "MARGIN_STEPS = [Pricing, Costs, Leakage, Segments, Recommendations]"

fun endpoint :: "step_id \<Rightarrow> string" where
  "endpoint Pricing = ''/api/margin/pricing''"
| "endpoint Costs = ''/api/margin/costs''"
| "endpoint Leakage = ''/api/margin/leakage''"
| "endpoint Segments = ''/api/margin/segments''"
| "endpoint Recommendations = ''/api/margin/recommendations''"

datatype step_result = Pending | Loading | Success json jsstring | Error jsstring

text \<open>
  A \<open>fetch\<close> throws (network failure, abort) or gives a response: its \<open>ok\<close> flag, its
  status and its text, \<open>None\<close> when reading the text fails.
\<close>

datatype fetch_result = FetchThrows jsstring | FetchResponse bool nat "jsstring option"

datatype event =
    Requested step_id
  | Answered step_id bool
  | SaveRequested string json
  | Completed json

record loader =
  currentStep :: nat
  stepResults :: "step_id \<Rightarrow> step_result option"
  accum :: "step_id \<Rightarrow> json option"
  isRetrying :: bool
  showHourglassLoader :: bool
  fetches :: nat
  events :: "event list"

record loader_env =
  lo_fileId :: string
  lo_runId :: "string option"
  lo_network :: "nat \<Rightarrow> fetch_result"
  lo_parse :: parser
  lo_render :: "json \<Rightarrow> jsstring outcome"
  lo_type_error :: jsstring
  lo_completedAt :: string

definition initial_loader :: loader where
  "initial_loader =
     \<lparr>currentStep = 0, stepResults = (\<lambda>step. Some Pending), accum = (\<lambda>step. None),
      isRetrying = False, showHourglassLoader = False, fetches = 0, events = []\<rparr>"

text \<open>\<open>text ? JSON.parse(text) : {}\<close>, and \<open>{ rawText: text }\<close> when the parse throws.\<close>

definition response_result :: "parser \<Rightarrow> jsstring option \<Rightarrow> json" where
  "response_result parse text =
     (case text of
        None \<Rightarrow> JObj []
      | Some t \<Rightarrow>
          if t = [] then JObj []
          else (case parse t of Returns v \<Rightarrow> v | Throws \<Rightarrow> JObj [(js ''rawText'', JStr t)]))"

text \<open>\<open>result?.error || result?.message || `HTTP ${response.status}`\<close>\<close>

definition failure_message :: "loader_env \<Rightarrow> json \<Rightarrow> nat \<Rightarrow> jsstring" where
  "failure_message env result code =
     (let message = or_else (get_field result (js ''error''))
                      (or_else (get_field result (js ''message'')) (JStr (js (''HTTP '' @ decimal code))))
      in case message of
           JStr m \<Rightarrow> m
         | v \<Rightarrow> (case lo_render env v of Returns m \<Rightarrow> m | Throws \<Rightarrow> lo_type_error env))"

text \<open>The summary of a step. Reading a property of \<open>null\<close> throws.\<close>

definition length_of :: "json option \<Rightarrow> json option" where
  "length_of v =
     (case v of
        Some (JArr xs) \<Rightarrow> Some (JNum (of_nat (length xs)))
      | Some (JStr t) \<Rightarrow> Some (JNum (of_nat (length t)))
      | Some (JObj kvs) \<Rightarrow> map_of kvs (js ''length'')
      | _ \<Rightarrow> None)"

definition in_template :: "loader_env \<Rightarrow> jsstring \<Rightarrow> json \<Rightarrow> jsstring \<Rightarrow> jsstring outcome" where
  "in_template env before v after =
     (case lo_render env v of Returns t \<Rightarrow> Returns (before @ t @ after) | Throws \<Rightarrow> Throws)"

fun summary :: "loader_env \<Rightarrow> step_id \<Rightarrow> json \<Rightarrow> jsstring outcome" where
  "summary env step JNull = Throws"
| "summary env Pricing result =
     (case in_template env (js ''Products: '')
             (first_of [get_field result (js ''total_products''), get_field result (js ''pricing_count'')]
                (JStr (js ''N/A''))) [] of
        Throws \<Rightarrow> Throws
      | Returns t \<Rightarrow>
          in_template env (t @ js '', avg discount: '')
            (first_of [get_field result (js ''avg_discount_pct'')] (JStr (js ''N/A''))) [])"
| "summary env Costs result =
     in_template env (js ''Avg margin: '')
       (first_of [get_field result (js ''avg_margin_pct'')] (JStr (js ''N/A''))) (js ''%'')"
| "summary env Leakage result =
     in_template env []
       (first_of [get_field result (js ''leakage_instances''), get_field result (js ''leakage_count'')]
          (JNum 0)) (js '' leakage(s) found'')"
| "summary env Segments result =
     in_template env [] (first_of [get_field result (js ''segments_analyzed'')] (JNum 0))
       (js '' segments'')"
| "summary env Recommendations result =
     in_template env []
       (first_of [get_field result (js ''recommendations_count''),
                  length_of (get_field result (js ''recommendations''))] (JNum 0))
       (js '' recommendations'')"

subsection \<open>\<open>finalizeAndReturn\<close>\<close>

text \<open>\<open>acc.step?.key\<close>: nothing when the step has no stored response or it is \<open>null\<close>.\<close>

definition of_step :: "(step_id \<Rightarrow> json option) \<Rightarrow> step_id \<Rightarrow> string \<Rightarrow> json option" where
  "of_step acc step key =
     (if nullish (acc step) then None else get_field (the (acc step)) (js key))"

text \<open>
  \<open>xs.map(f)\<close> needs \<open>xs\<close> to be an array, and the two mapping functions read
  properties of every element, which throws on \<open>null\<close>.
\<close>

definition priority_suggestion :: "json \<Rightarrow> json" where
  "priority_suggestion action =
     JObj [(js ''type'', or_else (get_field action (js ''category''))
                          (or_else (get_field action (js ''action'')) (JStr (js ''Optimization'')))),
           (js ''description'', or_else (get_field action (js ''action''))
                                 (or_else (get_field action (js ''rationale'')) (JStr []))),
           (js ''impact_estimate'', or_else (get_field action (js ''impact'')) (JStr (js ''Unknown impact''))),
           (js ''confidence'',
              JNum (if get_field action (js ''priority'') = Some (JStr (js ''high'')) then 9 / 10
                    else if get_field action (js ''priority'') = Some (JStr (js ''medium'')) then 7 / 10
                    else 5 / 10)),
           (js ''rationale'', or_else (get_field action (js ''rationale'')) (JStr [])),
           (js ''priority'', or_else (get_field action (js ''priority'')) (JStr (js ''medium'')))]"

definition quick_win_suggestion :: "json \<Rightarrow> json" where
  "quick_win_suggestion win =
     JObj [(js ''type'', JStr (js ''Quick Win'')),
           (js ''description'', or_else (get_field win (js ''action'')) (JStr [])),
           (js ''impact_estimate'', or_else (get_field win (js ''impact'')) (JStr (js ''Unknown impact''))),
           (js ''confidence'', JNum (8 / 10)),
           (js ''effort'', or_else (get_field win (js ''effort'')) (JStr (js ''low''))),
           (js ''priority'', JStr (js ''high''))]"

definition map_array :: "(json \<Rightarrow> json) \<Rightarrow> json \<Rightarrow> json list outcome" where
  "map_array f v =
     (case v of
        JArr xs \<Rightarrow> if JNull \<in> set xs then Throws else Returns (map f xs)
      | _ \<Rightarrow> Throws)"

definition count_priority :: "json list \<Rightarrow> string \<Rightarrow> json" where
  "count_priority actions p =
     JNum (of_nat (length (filter (\<lambda>a. get_field a (js ''priority'') = Some (JStr (js p))) actions)))"

definition array_items :: "json \<Rightarrow> json list" where
  "array_items v = (case v of JArr xs \<Rightarrow> xs | _ \<Rightarrow> [])"

definition final_record ::
  "loader_env \<Rightarrow> (step_id \<Rightarrow> json option) \<Rightarrow> json list \<Rightarrow> json list \<Rightarrow> json" where
  "final_record env acc fromActions fromWins =
     (let recommendationsData = first_of [acc Recommendations] (JObj []);
          priorityActions = first_of [get_field recommendationsData (js ''priority_actions'')] (JArr []);
          quickWins = first_of [get_field recommendationsData (js ''quick_wins'')] (JArr [])
      in
      JObj
        [(js ''pricing'', first_of [acc Pricing] (JObj [])),
         (js ''costs'', first_of [acc Costs] (JObj [])),
         (js ''leakage'', first_of [acc Leakage] (JObj [])),
         (js ''segments'', first_of [acc Segments] (JObj [])),
         (js ''recommendations'', first_of [acc Recommendations] (JObj [])),
         (js ''top_product_losses'',
            first_of [of_step acc Recommendations ''top_product_losses'',
                      of_step acc Leakage ''top_product_losses'',
                      of_step acc Pricing ''top_product_losses''] (JArr [])),
         (js ''top_customer_losses'', first_of [of_step acc Leakage ''top_customer_losses''] (JArr [])),
         (js ''product_customer_pairs_below_cost'',
            first_of [of_step acc Leakage ''product_customer_pairs_below_cost''] (JArr [])),
         (js ''samples'',
            first_of [of_step acc Pricing ''samples'', of_step acc Leakage ''samples'']
              (JObj [(js ''below_cost'', JArr []), (js ''low_margin'', JArr []),
                     (js ''extreme_discount'', JArr [])])),
         (js ''remediation_suggestions'', JArr (fromActions @ fromWins)),
         (js ''severity_summary'',
            first_of [get_field recommendationsData (js ''severity_summary''),
                      of_step acc Segments ''severity_summary'',
                      of_step acc Leakage ''severity_summary'']
              (JObj [(js ''critical'', count_priority (array_items priorityActions) ''critical''),
                     (js ''high'',
                        JNum (of_nat (length (filter
                                (\<lambda>a. get_field a (js ''priority'') = Some (JStr (js ''high'')))
                                (array_items priorityActions)) + length (array_items quickWins)))),
                     (js ''medium'', count_priority (array_items priorityActions) ''medium''),
                     (js ''low'', count_priority (array_items priorityActions) ''low'')])),
         (js ''sql_queries'',
            JObj [(js ''below_cost'',
                     first_of [of_step acc Leakage ''sql'', of_step acc Pricing ''sql'',
                               of_step acc Segments ''sql''] (JStr [])),
                  (js ''low_margin'', first_of [of_step acc Pricing ''sql''] (JStr [])),
                  (js ''customer_level'', first_of [of_step acc Segments ''sql''] (JStr []))]),
         (js ''meta'',
            JObj ([(js ''fileId'', JStr (js (lo_fileId env)))] @
                  (case lo_runId env of Some r \<Rightarrow> [(js ''runId'', JStr (js r))] | None \<Rightarrow> []) @
                  [(js ''completedAt'', JStr (js (lo_completedAt env))),
                   (js ''analysis_type'', JStr (js ''margin_leakage''))]))])"

text \<open>
  The two lists of suggestions are made first; when either \<open>map\<close> throws, so does the
  function.
\<close>

definition finalResults :: "loader_env \<Rightarrow> (step_id \<Rightarrow> json option) \<Rightarrow> json outcome" where
  "finalResults env acc =
     (let recommendationsData = first_of [acc Recommendations] (JObj []);
          priorityActions = first_of [get_field recommendationsData (js ''priority_actions'')] (JArr []);
          quickWins = first_of [get_field recommendationsData (js ''quick_wins'')] (JArr [])
      in
      case map_array priority_suggestion priorityActions of
        Throws \<Rightarrow> Throws
      | Returns fromActions \<Rightarrow>
          (case map_array quick_win_suggestion quickWins of
             Throws \<Rightarrow> Throws
           | Returns fromWins \<Rightarrow> Returns (final_record env acc fromActions fromWins)))"

text \<open>
  The final record is built, sent to \<open>/api/margin-report/save\<close> when there is a run
  identifier (whatever the answer, the run goes on), and handed to \<open>onComplete\<close>. When
  building it throws, nothing is sent.
\<close>

definition finalizeAndReturn :: "loader_env \<Rightarrow> loader \<Rightarrow> loader" where
  "finalizeAndReturn env s =
     (case finalResults env (accum s) of
        Throws \<Rightarrow> s\<lparr>showHourglassLoader := True\<rparr>
      | Returns final \<Rightarrow>
          s\<lparr>showHourglassLoader := True,
            events := events s @
              (if present (lo_runId env) then [SaveRequested (the (lo_runId env)) final] else []) @
              [Completed final]\<rparr>)"

subsection \<open>\<open>runStep\<close> and \<open>handleRetry\<close>\<close>

function runStep :: "loader_env \<Rightarrow> nat \<Rightarrow> loader \<Rightarrow> loader" where
  "runStep env stepIndex s =
     (if stepIndex \<ge> length MARGIN_STEPS then finalizeAndReturn env s
      else
        let step = MARGIN_STEPS ! stepIndex;
            s1 = s\<lparr>currentStep := stepIndex, stepResults := (stepResults s)(step \<mapsto> Loading),
                   fetches := fetches s + 1, events := events s @ [Requested step]\<rparr>
        in
        case lo_network env (fetches s) of
          FetchThrows msg \<Rightarrow> s1\<lparr>stepResults := (stepResults s1)(step \<mapsto> Error msg)\<rparr>
        | FetchResponse ok code text \<Rightarrow>
            let result = response_result (lo_parse env) text;
                s2 = s1\<lparr>events := events s1 @ [Answered step ok]\<rparr>
            in
            if \<not> ok then
              s2\<lparr>stepResults := (stepResults s2)(step \<mapsto> Error (failure_message env result code))\<rparr>
            else
              let s3 = s2\<lparr>accum := (accum s2)(step \<mapsto> result)\<rparr> in
              case summary env step result of
                Throws \<Rightarrow> s3\<lparr>stepResults := (stepResults s3)(step \<mapsto> Error (lo_type_error env))\<rparr>
              | Returns text \<Rightarrow>
                  runStep env (stepIndex + 1)
                    (s3\<lparr>stepResults := (stepResults s3)(step \<mapsto> Success result text)\<rparr>))"
  by pat_completeness auto
termination
  by (relation "measure (\<lambda>(env, stepIndex, s). length MARGIN_STEPS - stepIndex)") auto

text \<open>\<open>MARGIN_STEPS.findIndex((step) => stepResults[step.id]?.status === "error")\<close>\<close>

definition is_error :: "step_result option \<Rightarrow> bool" where
  "is_error r = (case r of Some (Error _) \<Rightarrow> True | _ \<Rightarrow> False)"

fun findIndex :: "('a \<Rightarrow> bool) \<Rightarrow> 'a list \<Rightarrow> nat option" where
  "findIndex p [] = None"
| "findIndex p (x # xs) = (if p x then Some 0 else map_option Suc (findIndex p xs))"

definition handleRetry :: "loader_env \<Rightarrow> loader \<Rightarrow> loader" where
  "handleRetry env s =
     (case findIndex (\<lambda>step. is_error (stepResults s step)) MARGIN_STEPS of
        None \<Rightarrow> s\<lparr>isRetrying := True\<rparr>
      | Some failedStepIndex \<Rightarrow>
          runStep env failedStepIndex
            (s\<lparr>isRetrying := False,
               stepResults := (stepResults s)(MARGIN_STEPS ! failedStepIndex \<mapsto> Pending)\<rparr>))"

subsection \<open>Saving the report\<close>

text \<open>
  The handler of \<open>/api/margin-report/save\<close>; the collection \<open>margin_analyses\<close> holds
  one document per run identifier and user.
\<close>

record save_env =
  se_auth :: "string option"
  se_db_up :: bool
  se_now :: nat

definition save_POST ::
  "save_env \<Rightarrow> analysis_doc list \<Rightarrow> string option \<Rightarrow> json option \<Rightarrow> response \<times> analysis_doc list" where
  "save_POST env margin_analyses runId analysis =
     (if \<not> present (se_auth env) then (error_response 401 ''Authentication required'', margin_analyses)
      else if \<not> present runId \<or> \<not> truthy (first_of [analysis] JNull) then
        (error_response 400 ''runId and analysis are required'', margin_analyses)
      else if \<not> se_db_up env then (error_response 500 ''Internal server error'', margin_analyses)
      else
        (\<lparr>status = 200, body = JObj [(js ''success'', JBool True)]\<rparr>,
         upsert_analysis (ByRun (the runId) (the (se_auth env)))
           [(js ''analysis'', the analysis),
            (js ''status'', JStr (js ''completed'')),
            (js ''completedAt'', JNum (of_nat (se_now env))),
            (js ''updatedAt'', JNum (of_nat (se_now env)))]
           margin_analyses))"

subsection \<open>Runs\<close>

text \<open>
  A run starts with every step pending and calls \<open>runStep(0)\<close>. The \<open>n\<close>-th \<open>fetch\<close>
  lets its step succeed when the response is ok and the summary can be written.
\<close>

definition run :: "loader_env \<Rightarrow> loader" where
  "run env = runStep env 0 initial_loader"

definition step_succeeds :: "loader_env \<Rightarrow> nat \<Rightarrow> step_id \<Rightarrow> bool" where
  "step_succeeds env n step =
     (case lo_network env n of
        FetchThrows _ \<Rightarrow> False
      | FetchResponse ok code text \<Rightarrow>
          ok \<and> summary env step (response_result (lo_parse env) text) \<noteq> Throws)"

text \<open>
  In a run without retry the \<open>n\<close>-th \<open>fetch\<close> is for the \<open>n\<close>-th step: \<open>passed env i\<close>
  is the first step from \<open>i\<close> on that does not succeed, 5 when all do.
\<close>

function passed :: "loader_env \<Rightarrow> nat \<Rightarrow> nat" where
  "passed env i =
     (if i < length MARGIN_STEPS \<and> step_succeeds env i (MARGIN_STEPS ! i) then passed env (i + 1)
      else i)"
  by pat_completeness auto
termination
  by (relation "measure (\<lambda>(env, i). length MARGIN_STEPS - i)") auto

fun requests :: "event list \<Rightarrow> step_id list" where
  "requests [] = []"
| "requests (Requested step # es) = step # requests es"
| "requests (_ # es) = requests es"

text \<open>The step before a step.\<close>

fun prior :: "step_id \<Rightarrow> step_id option" where
  "prior Pricing = None"
| "prior Costs = Some Pricing"
| "prior Leakage = Some Costs"
| "prior Segments = Some Leakage"
| "prior Recommendations = Some Segments"

text \<open>
  In a list of events, every request of a step directly follows the ok answer to the
  step before it.
\<close>

definition follows_ok_answer :: "event list \<Rightarrow> bool" where
  "follows_ok_answer evs =
     list_all (\<lambda>(a, b). case b of
                          Requested step \<Rightarrow> (case prior step of Some p \<Rightarrow> a = Answered p True | None \<Rightarrow> False)
                        | _ \<Rightarrow> True)
       (zip evs (tl evs))"

text \<open>The state a successful step \<open>i\<close> leaves, before the next step starts.\<close>

definition succeeded :: "nat \<Rightarrow> json \<Rightarrow> jsstring \<Rightarrow> loader \<Rightarrow> loader" where
  "succeeded i result sm s =
     s\<lparr>currentStep := i,
       fetches := fetches s + 1,
       events := events s @ [Requested (MARGIN_STEPS ! i), Answered (MARGIN_STEPS ! i) True],
       accum := (accum s)(MARGIN_STEPS ! i \<mapsto> result),
       stepResults := (stepResults s)(MARGIN_STEPS ! i \<mapsto> Success result sm)\<rparr>"

text \<open>
  What a call \<open>runStep(i)\<close> adds to the events starts with the request of step \<open>i\<close>;
  past the last step it holds no request.
\<close>

definition starts_at :: "nat \<Rightarrow> event list \<Rightarrow> bool" where
  "starts_at i tr =
     (case tr of
        [] \<Rightarrow> 5 \<le> i
      | e # _ \<Rightarrow> if i < 5 then e = Requested (MARGIN_STEPS ! i) else requests [e] = [])"

text \<open>The response object of the \<open>n\<close>-th \<open>fetch\<close>, as \<open>runStep\<close> stores it.\<close>

definition response_object :: "loader_env \<Rightarrow> nat \<Rightarrow> json" where
  "response_object env n =
     (case lo_network env n of
        FetchResponse ok code text \<Rightarrow> response_result (lo_parse env) text
      | FetchThrows _ \<Rightarrow> JNull)"

text \<open>
  The property \<open>key\<close> of the recommendations is missing, \<open>null\<close>, or an array without
  \<open>null\<close> in it: \<open>finalizeAndReturn\<close> can map over it.
\<close>

definition action_list :: "json \<Rightarrow> string \<Rightarrow> bool" where
  "action_list recommendations key =
     (case first_of [get_field recommendations (js key)] (JArr []) of
        JArr xs \<Rightarrow> JNull \<notin> set xs
      | _ \<Rightarrow> False)"

text \<open>The states a loader goes through: a run, then any number of retries.\<close>

inductive reachable :: "loader_env \<Rightarrow> loader \<Rightarrow> bool" for env where
  started: "reachable env (run env)"
| retried: "reachable env s \<Longrightarrow> reachable env (handleRetry env s)"

definition is_success :: "step_result option \<Rightarrow> bool" where
  "is_success r = (case r of Some (Success _ _) \<Rightarrow> True | _ \<Rightarrow> False)"

text \<open>The events a call added to the ones before it.\<close>

definition added :: "loader \<Rightarrow> loader \<Rightarrow> event list" where
  "added before after = drop (length (events before)) (events after)"

text \<open>
  How far a loader has come: the steps before \<open>k\<close> have succeeded, step \<open>k\<close> has
  failed, the steps after it are pending.
\<close>

definition progress :: "nat \<Rightarrow> loader \<Rightarrow> bool" where
  "progress k s \<longleftrightarrow>
     k \<le> 5 \<and> (\<forall>j<k. is_success (stepResults s (MARGIN_STEPS ! j))) \<and>
     (k < 5 \<longrightarrow> is_error (stepResults s (MARGIN_STEPS ! k))) \<and>
     (\<forall>j. k < j \<and> j < 5 \<longrightarrow> stepResults s (MARGIN_STEPS ! j) = Some Pending)"

text \<open>
  The events of the steps themselves, requests and answers, as opposed to those of
  \<open>finalizeAndReturn\<close>.
\<close>

definition step_event :: "event \<Rightarrow> bool" where
  "step_event e = (case e of Requested _ \<Rightarrow> True | Answered _ _ \<Rightarrow> True | _ \<Rightarrow> False)"

text \<open>
  Every request is one \<open>fetch\<close>, so the \<open>n\<close>-th request in the events is answered by
  \<open>lo_network env n\<close>. \<open>last_request evs step n\<close>: the last request of \<open>step\<close> is the
  \<open>n\<close>-th request.
\<close>

definition last_request :: "event list \<Rightarrow> step_id \<Rightarrow> nat \<Rightarrow> bool" where
  "last_request evs step n \<longleftrightarrow>
     n < length (requests evs) \<and> requests evs ! n = step \<and>
     (\<forall>m<length (requests evs). n < m \<longrightarrow> requests evs ! m \<noteq> step)"

text \<open>
  The step has succeeded with the answer to its last request, the \<open>n\<close>-th \<open>fetch\<close>, and
  the response object of that answer is what the accumulator and the step results
  hold for it.
\<close>

definition stored_at :: "loader_env \<Rightarrow> loader \<Rightarrow> step_id \<Rightarrow> nat \<Rightarrow> bool" where
  "stored_at env s step n \<longleftrightarrow>
     last_request (events s) step n \<and> step_succeeds env n step \<and>
     accum s step = Some (response_object env n) \<and>
     (case stepResults s step of
        Some (Success result _) \<Rightarrow> result = response_object env n
      | _ \<Rightarrow> False)"

text \<open>What \<open>finalizeAndReturn\<close> adds to the events for an accumulator.\<close>

definition closing :: "loader_env \<Rightarrow> (step_id \<Rightarrow> json option) \<Rightarrow> event list" where
  "closing env acc =
     (case finalResults env acc of
        Throws \<Rightarrow> []
      | Returns final \<Rightarrow>
          (if present (lo_runId env) then [SaveRequested (the (lo_runId env)) final] else []) @
          [Completed final])"

text \<open>
  Where a loader stands when it has come as far as \<open>k\<close>: every request was one
  \<open>fetch\<close>, the steps before \<open>k\<close> are stored, and the events are those of the steps,
  followed by those of \<open>finalizeAndReturn\<close> once all five steps are through.
\<close>

definition settled :: "loader_env \<Rightarrow> nat \<Rightarrow> loader \<Rightarrow> bool" where
  "settled env k s \<longleftrightarrow>
     fetches s = length (requests (events s)) \<and>
     (\<forall>j<k. \<exists>n. stored_at env s (MARGIN_STEPS ! j) n) \<and>
     (if k = 5 then \<exists>tr. events s = tr @ closing env (accum s) \<and> list_all step_event tr
      else list_all step_event (events s))"

subsection \<open>A small installation\<close>

definition demo_env :: server_env where
  "demo_env = \<lparr>env_MONGODB_URI = Some ''mongodb://db'', env_db_up = True, env_now = 7,
                env_new_id = ''65f0000000000000000000a2''\<rparr>"

definition demo_db :: database where
  "demo_db = \<lparr>excelFiles = [], sessionMetadata = []\<rparr>"

definition demo_upload :: upload_request where
  "demo_upload = \<lparr>up_auth = Some ''user_1'', up_file = Some (''Sales.CSV'', [1, 2, 3]),
                   up_sessionId = Some ''s1''\<rparr>"

definition demo_preferences :: SessionMetadata where
  "demo_preferences = \<lparr>combineData = True, joinType = ''inner'', customPrompt = []\<rparr>"


text \<open>
  The text a value gets in a template literal: exact on strings, booleans, \<open>null\<close> and
  whole numbers that are not negative, which is all the examples put into one.
\<close>

definition demo_render :: "json \<Rightarrow> jsstring outcome" where
  "demo_render v =
     (case v of
        JStr t \<Rightarrow> Returns t
      | JNum n \<Rightarrow> if n = of_int \<lfloor>n\<rfloor> \<and> 0 \<le> n then Returns (js (decimal (nat \<lfloor>n\<rfloor>))) else Returns (js ''?'')
      | JBool b \<Rightarrow> Returns (js (if b then ''true'' else ''false''))
      | JNull \<Rightarrow> Returns (js ''null'')
      | _ \<Rightarrow> Returns (js ''[object Object]''))"

text \<open>A loader whose every request is answered, and one whose third request fails.\<close>

definition steady_env :: loader_env where
  "steady_env =
     \<lparr>lo_fileId = ''65f0000000000000000000a1'', lo_runId = Some ''margin_1'',
      lo_network = (\<lambda>n. FetchResponse True 200 (Some (js ''{\"n\":1}''))),
      lo_parse = JSON_parse, lo_render = demo_render, lo_type_error = js ''TypeError'',
      lo_completedAt = ''2025-01-01T00:00:00.000Z''\<rparr>"

definition faulty_env :: loader_env where
  "faulty_env =
     steady_env\<lparr>lo_network :=
       (\<lambda>n. if n = 2 then FetchResponse False 500 (Some (js ''{\"error\":\"down\"}''))
            else FetchResponse True 200 (Some (js ''{\"n\":1}'')))\<rparr>"

text \<open>
  A loader whose fifth step is answered with recommendations that hold \<open>null\<close> in the
  place of an action.
\<close>

definition careless_env :: loader_env where
  "careless_env =
     steady_env\<lparr>lo_network :=
       (\<lambda>n. if n = 4 then FetchResponse True 200 (Some (js ''{\"priority_actions\":[null]}''))
            else FetchResponse True 200 (Some (js ''{\"n\":1}'')))\<rparr>"

text \<open>
  A stored file of one user, two rows read from it, and a cost handler whose model
  answers with prose; \<open>demo_ObjectId\<close> takes 24 hexadecimal digits.
\<close>

definition demo_ObjectId :: "string \<Rightarrow> string option" where
  "demo_ObjectId t =
     (if length t = 24 \<and> list_all (\<lambda>c. c \<in> set ''0123456789abcdefABCDEF'') t
      then Some (map to_lower t) else None)"

definition demo_file :: file_doc where
  "demo_file =
     \<lparr>doc_id = ''65f0000000000000000000a1'', doc_filename = ''sales.csv'', doc_contentType = None,
      doc_metadata = \<lparr>md_userId = ''user_1'', md_uploadedAt = 1, md_sessionId = ''s1'',
                       md_isCombined = False, md_sourceFileIds = None, md_requestStartTime = None\<rparr>,
      doc_bytes = []\<rparr>"

definition demo_rows :: "row list" where
  "demo_rows =
     [[(''product_id'', ''A7''), (''cost'', ''80''), (''net_price'', ''75'')],
      [(''product_id'', []), (''cost'', ''10''), (''net_price'', ''12'')]]"

definition demo_margin_state :: margin_state where
  "demo_margin_state = \<lparr>ms_files = [demo_file], ms_analyses = [], ms_model_calls = 0\<rparr>"

definition demo_costs_env :: costs_env where
  "demo_costs_env =
     \<lparr>xe_MONGODB_URI = Some ''mongodb://db'', xe_VERTEX_AI_PROJECT = None, xe_VERTEX_AI_LOCATION = None,
      xe_ObjectId = demo_ObjectId, xe_auth = Some ''user_1'', xe_db_up = True, xe_download_ok = True,
      xe_processFileData = (\<lambda>f. Returns ([''product_id'', ''cost'', ''net_price''], demo_rows)),
      xe_vertex_ready = True,
      xe_generateContent = (\<lambda>p. Returns (Some (js ''Sorry, no JSON''))),
      xe_parse = JSON_parse, xe_write_ok = True, xe_now = 9\<rparr>"

definition demo_costs_request :: costs_request where
  "demo_costs_request =
     \<lparr>rq_query_fileId = Some ''65f0000000000000000000a1'', rq_body_fileId = None,
      rq_cost_fields = None, rq_margin_thresholds = None\<rparr>"

definition demo_logical_env :: logical_env where
  "demo_logical_env =
     \<lparr>le_auth = Some ''user_2'', le_db_up = True, le_ObjectId = demo_ObjectId, le_download_ok = True,
      le_processFileBuffer = (\<lambda>f. Returns ([''product_id'', ''cost'', ''net_price''], demo_rows)),
      le_vertex_ready = True, le_generateContent = (\<lambda>n. GenText (Some (js ''{}''))),
      le_parse = JSON_parse, le_write_ok = True, le_now = 9\<rparr>"

text \<open>
  Two combine requests of the same user for the same session, the second after the
  first has stored its result, with no upload in between. The session holds one
  uploaded workbook; the library reads its bytes as a sheet with a header and one
  row, and the bytes it has written for two rows as the sheet of the combined data.
\<close>

definition sales_workbook :: file_doc where
  "sales_workbook =
     \<lparr>doc_id = ''65f0000000000000000000a1'', doc_filename = ''sales.xlsx'', doc_contentType = None,
      doc_metadata = \<lparr>md_userId = ''user_1'', md_uploadedAt = 1, md_sessionId = ''s1'',
                       md_isCombined = False, md_sourceFileIds = None, md_requestStartTime = None\<rparr>,
      doc_bytes = [80, 75, 3, 4, 0, 0]\<rparr>"

definition demo_xlsx_load :: "nat list \<Rightarrow> worksheet list outcome" where
  "demo_xlsx_load bytes =
     (if bytes = [80, 75, 3, 4, 0, 0] then Returns [[[Some ''sku'', Some ''qty''], [Some ''A7'', Some ''2'']]]
      else if bytes = [80, 75, 3, 4, 2] then Returns [[[Some ''n''], [Some ''1'']]]
      else Throws)"

definition first_combine :: combine_env where
  "first_combine =
     \<lparr>ce_MONGODB_URI = Some ''mongodb://db'', ce_OPENROUTER_API_KEY = Some ''key'',
      ce_auth = Some ''user_1'', ce_db_up = True, ce_requestStartTime = 2, ce_storedAt = 3,
      ce_new_id = ''65f0000000000000000000c1'', ce_download_ok = (\<lambda>id. True),
      ce_csv_read = (\<lambda>text. Throws), ce_xlsx_load = demo_xlsx_load,
      ce_api = (\<lambda>p. ApiContent (js ''[{\"n\":1}]'')), ce_parse = JSON_parse,
      ce_writeBuffer = (\<lambda>rows. Returns [80, 75, 3, 4, length rows]), ce_upload_ok = True\<rparr>"

definition second_combine :: combine_env where
  "second_combine =
     first_combine\<lparr>ce_requestStartTime := 4, ce_storedAt := 5, ce_new_id := ''65f0000000000000000000c2''\<rparr>"

definition one_upload :: combine_state where
  "one_upload =
     \<lparr>cs_db = \<lparr>excelFiles = [sales_workbook], sessionMetadata = []\<rparr>, cs_locks = [], cs_api_calls = []\<rparr>"

definition after_first_combine :: "response \<times> combine_state" where
  "after_first_combine = combine_POST first_combine one_upload (Some ''s1'')"

definition after_second_combine :: "response \<times> combine_state" where
  "after_second_combine = combine_POST second_combine (snd after_first_combine) (Some ''s1'')"

text \<open>
  Replies of the combine model: an array inside a code fence; an array that breaks
  off after a comma; two objects on one line and a third on the next; two objects in
  a sentence; two arrays on two lines; two objects, each with a comma before its
  closing brace; and prose.
\<close>

definition fenced_reply :: jsstring where
  "fenced_reply = [96, 96, 96] @ js ''json'' @ [10] @ js ''[{\"n\":1}]'' @ [10, 96, 96, 96]"

definition unclosed_reply :: jsstring where
  "unclosed_reply = js ''Rows: [{\"n\":1},{\"n\":2},''"

definition mixed_reply :: jsstring where
  "mixed_reply = js ''{\"n\":1} {\"n\":2}'' @ [10] @ js ''{\"n\":3}''"

definition objects_reply :: jsstring where
  "objects_reply = js ''See {\"n\":1} {\"n\":2}''"

definition arrays_reply :: jsstring where
  "arrays_reply = js ''[1]'' @ [10] @ js ''[2]''"

definition commas_reply :: jsstring where
  "commas_reply = js ''{\"n\":1,}'' @ [10] @ js ''{\"n\":2,}''"

definition prose_reply :: jsstring where
  "prose_reply = js ''no data''"

section \<open>Properties\<close>

lemma js_eq_iff [simp]: "js a = js b \<longleftrightarrow> a = b"
  unfolding js_def by (simp add: inj_map_eq_map inj_on_def)

subsection \<open>Parsing the texts of the examples\<close>

lemmas parse_eval = JSON_parse_def js_def json_space_def number_token_def is_digit_unit_def
  starts_with_def Let_def

lemma parse_n1: "JSON_parse (js ''{\"n\":1}'') = Returns (JObj [(js ''n'', JNum 1)])"
  by (simp add: parse_eval)

lemma parse_down: "JSON_parse (js ''{\"error\":\"down\"}'') = Returns (JObj [(js ''error'', JStr (js ''down''))])"
  by (simp add: parse_eval)

subsection \<open>Upload metadata and session preferences\<close>

lemma update_first_None: "update_first p f xs = None \<longleftrightarrow> (\<forall>x\<in>set xs. \<not> p x)"
  by (induction xs) auto

lemma find_None_iff_set: "find p xs = None \<longleftrightarrow> (\<forall>x\<in>set xs. \<not> p x)"
  by (induction xs) auto

lemma find_update_first:
  "\<lbrakk>\<And>x. p x \<Longrightarrow> p (f x); update_first p f xs = Some ys\<rbrakk> \<Longrightarrow> find p ys = map_option f (find p xs)"
  by (induction xs arbitrary: ys) (auto split: if_splits)

lemma find_update_first_other:
  "\<lbrakk>\<And>x. q (f x) = q x; \<And>x. p x \<Longrightarrow> \<not> q x; update_first p f xs = Some ys\<rbrakk> \<Longrightarrow> find q ys = find q xs"
  by (induction xs arbitrary: ys) (auto split: if_splits)

lemma find_upsert:
  assumes "\<And>x. p x \<Longrightarrow> p (f x)" and "p fresh"
  shows "find p (upsert p f fresh xs) = Some (f (case find p xs of Some x \<Rightarrow> x | None \<Rightarrow> fresh))"
proof (cases "update_first p f xs")
  case None
  then have no: "\<forall>x\<in>set xs. \<not> p x" by (simp add: update_first_None)
  then have "find p xs = None" by (simp add: find_None_iff_set)
  moreover have "find p (xs @ [f fresh]) = Some (f fresh)"
    using no assms by (induction xs) auto
  ultimately show ?thesis using None by (simp add: upsert_def)
next
  case (Some ys)
  then have "find p xs \<noteq> None"
    using update_first_None [of p f xs] by (auto simp: find_None_iff_set)
  then show ?thesis
    using Some find_update_first [OF assms(1) Some] by (auto simp: upsert_def)
qed

lemma find_upsert_other:
  assumes "\<And>x. q (f x) = q x" and "\<And>x. p x \<Longrightarrow> \<not> q x" and "\<not> q fresh"
  shows "find q (upsert p f fresh xs) = find q xs"
proof (cases "update_first p f xs")
  case None
  have "find q (xs @ [f fresh]) = find q xs"
    using assms(1,3) by (induction xs) auto
  then show ?thesis using None by (simp add: upsert_def)
next
  case (Some ys)
  have "find q ys = find q xs"
  proof (rule find_update_first_other [where p = p and f = f])
    show "\<And>x. q (f x) = q x" by (rule assms(1))
    show "\<And>x. p x \<Longrightarrow> \<not> q x" by (rule assms(2))
    show "update_first p f xs = Some ys" by (rule Some)
  qed
  then show ?thesis using Some by (simp add: upsert_def)
qed

lemma sd_sessionId_set_session_fields [simp]:
  "sd_sessionId (set_session_fields md now d) = sd_sessionId d"
  by (cases md) (simp_all add: set_session_fields_def)

lemma preferences_after_save:
  assumes "status (fst (session_POST env db (Some sid) (Some m))) = 200"
  shows "combine_preferences (snd (session_POST env db (Some sid) (Some m))) sid = m"
proof -
  let ?p = "\<lambda>d. sd_sessionId d = sid"
  let ?f = "set_session_fields (Some m) (env_now env)"
  let ?fresh = "\<lparr>sd_sessionId = sid, sd_combineData = None, sd_joinType = None,
                  sd_customPrompt = None, sd_updatedAt = env_now env\<rparr>"
  from assms have ok: "sid \<noteq> []" "present (env_MONGODB_URI env)" "env_db_up env"
    by (auto simp: session_POST_def error_response_def split: if_splits)
  have "find ?p (upsert ?p ?f ?fresh (sessionMetadata db)) =
          Some (?f (case find ?p (sessionMetadata db) of Some x \<Rightarrow> x | None \<Rightarrow> ?fresh))"
    by (rule find_upsert) simp_all
  then show ?thesis
    using ok
    by (cases m) (simp add: session_POST_def combine_preferences_def set_session_fields_def
        or_false_def or_empty_def split: bool.splits)
qed

lemma preferences_other_session:
  assumes "sid' \<noteq> sid"
  shows "combine_preferences (snd (session_POST env db (Some sid') md)) sid = combine_preferences db sid"
proof -
  have "find (\<lambda>d. sd_sessionId d = sid)
          (upsert (\<lambda>d. sd_sessionId d = sid') (set_session_fields md (env_now env))
             \<lparr>sd_sessionId = sid', sd_combineData = None, sd_joinType = None,
              sd_customPrompt = None, sd_updatedAt = env_now env\<rparr> (sessionMetadata db)) =
        find (\<lambda>d. sd_sessionId d = sid) (sessionMetadata db)"
    using assms by (intro find_upsert_other) auto
  then show ?thesis
    by (simp add: session_POST_def combine_preferences_def)
qed

lemma preferences_default:
  assumes "\<forall>d\<in>set (sessionMetadata db). sd_sessionId d \<noteq> sid"
  shows "combine_preferences db sid = \<lparr>combineData = False, joinType = [], customPrompt = []\<rparr>"
proof -
  from assms have "find (\<lambda>d. sd_sessionId d = sid) (sessionMetadata db) = None"
    by (simp add: find_None_iff_set)
  then show ?thesis by (simp add: combine_preferences_def)
qed

lemma upload_accepted:
  assumes "status (fst (upload_POST env db req)) = 200"
  shows "\<exists>name bytes. up_file req = Some (name, bytes) \<and> validExtensions name \<and>
           present (up_auth req) \<and> present (up_sessionId req) \<and>
           excelFiles (snd (upload_POST env db req)) = excelFiles db @
             [\<lparr>doc_id = env_new_id env, doc_filename = name, doc_contentType = None,
               doc_metadata = \<lparr>md_userId = the (up_auth req), md_uploadedAt = env_now env,
                                md_sessionId = the (up_sessionId req), md_isCombined = False,
                                md_sourceFileIds = None, md_requestStartTime = None\<rparr>,
               doc_bytes = bytes\<rparr>]"
  using assms
  by (auto simp: upload_POST_def error_response_def Let_def split: if_splits option.splits)

text \<open>
  C10: a file the upload service accepts (status 200) is appended to the blob store with
  the uploading user, the upload time and the session ID of the request as metadata;
  the preferences saved for a session are the ones the combine operation reads back for
  that session, a session without saved preferences reads \<open>false\<close> and empty strings,
  and neither an upload nor a save for another session changes what is read.
\<close>

theorem upload_metadata_and_preferences:
  "(status (fst (upload_POST env db req)) = 200 \<longrightarrow>
      (\<exists>name bytes. up_file req = Some (name, bytes) \<and> validExtensions name \<and>
         present (up_auth req) \<and> present (up_sessionId req) \<and>
         excelFiles (snd (upload_POST env db req)) = excelFiles db @
           [\<lparr>doc_id = env_new_id env, doc_filename = name, doc_contentType = None,
             doc_metadata = \<lparr>md_userId = the (up_auth req), md_uploadedAt = env_now env,
                              md_sessionId = the (up_sessionId req), md_isCombined = False,
                              md_sourceFileIds = None, md_requestStartTime = None\<rparr>,
             doc_bytes = bytes\<rparr>])) \<and>
   (status (fst (session_POST env db (Some sid) (Some m))) = 200 \<longrightarrow>
      combine_preferences (snd (session_POST env db (Some sid) (Some m))) sid = m) \<and>
   ((\<forall>d\<in>set (sessionMetadata db). sd_sessionId d \<noteq> sid) \<longrightarrow>
      combine_preferences db sid = \<lparr>combineData = False, joinType = [], customPrompt = []\<rparr>) \<and>
   (sid' \<noteq> sid \<longrightarrow>
      combine_preferences (snd (session_POST env db (Some sid') md)) sid = combine_preferences db sid) \<and>
   combine_preferences (snd (upload_POST env db req)) sid = combine_preferences db sid"
proof (intro conjI impI)
  assume "status (fst (upload_POST env db req)) = 200"
  then show "\<exists>name bytes. up_file req = Some (name, bytes) \<and> validExtensions name \<and>
         present (up_auth req) \<and> present (up_sessionId req) \<and>
         excelFiles (snd (upload_POST env db req)) = excelFiles db @
           [\<lparr>doc_id = env_new_id env, doc_filename = name, doc_contentType = None,
             doc_metadata = \<lparr>md_userId = the (up_auth req), md_uploadedAt = env_now env,
                              md_sessionId = the (up_sessionId req), md_isCombined = False,
                              md_sourceFileIds = None, md_requestStartTime = None\<rparr>,
             doc_bytes = bytes\<rparr>]"
    by (rule upload_accepted)
next
  assume "status (fst (session_POST env db (Some sid) (Some m))) = 200"
  then show "combine_preferences (snd (session_POST env db (Some sid) (Some m))) sid = m"
    by (rule preferences_after_save)
next
  assume "\<forall>d\<in>set (sessionMetadata db). sd_sessionId d \<noteq> sid"
  then show "combine_preferences db sid = \<lparr>combineData = False, joinType = [], customPrompt = []\<rparr>"
    by (rule preferences_default)
next
  assume "sid' \<noteq> sid"
  then show "combine_preferences (snd (session_POST env db (Some sid') md)) sid = combine_preferences db sid"
    by (rule preferences_other_session)
next
  show "combine_preferences (snd (upload_POST env db req)) sid = combine_preferences db sid"
    by (simp add: upload_POST_def combine_preferences_def Let_def split: option.splits)
qed

theorem upload_metadata_and_preferences_witness:
  "status (fst (upload_POST demo_env demo_db demo_upload)) = 200 \<and>
   map (\<lambda>d. (doc_filename d, md_userId (doc_metadata d), md_uploadedAt (doc_metadata d),
              md_sessionId (doc_metadata d)))
     (excelFiles (snd (upload_POST demo_env demo_db demo_upload))) = [(''Sales.CSV'', ''user_1'', 7, ''s1'')] \<and>
   status (fst (session_POST demo_env demo_db (Some ''s1'') (Some demo_preferences))) = 200 \<and>
   combine_preferences (snd (session_POST demo_env demo_db (Some ''s1'') (Some demo_preferences))) ''s1'' =
     demo_preferences \<and>
   sessionMetadata demo_db = [] \<and>
   combine_preferences demo_db ''s1'' = \<lparr>combineData = False, joinType = [], customPrompt = []\<rparr> \<and>
   ''s2'' \<noteq> ''s1'' \<and>
   combine_preferences (snd (session_POST demo_env demo_db (Some ''s2'') (Some demo_preferences))) ''s1'' =
     combine_preferences demo_db ''s1''"
proof -
  have up: "status (fst (upload_POST demo_env demo_db demo_upload)) = 200"
    by (simp add: upload_POST_def demo_env_def demo_db_def demo_upload_def validExtensions_def
        ends_with_def to_lower_def Let_def)
  have sv: "status (fst (session_POST demo_env demo_db (Some ''s1'') (Some demo_preferences))) = 200"
    by (simp add: session_POST_def demo_env_def)
  have none: "\<forall>d\<in>set (sessionMetadata demo_db). sd_sessionId d \<noteq> ''s1''"
    by (simp add: demo_db_def)
  have neq: "''s2'' \<noteq> ''s1''" by simp
  note inst = upload_metadata_and_preferences
    [of demo_env demo_db demo_upload "''s1''" demo_preferences "''s2''" "Some demo_preferences"]
  from inst up have "\<exists>name bytes. up_file demo_upload = Some (name, bytes) \<and>
      excelFiles (snd (upload_POST demo_env demo_db demo_upload)) = excelFiles demo_db @
           [\<lparr>doc_id = env_new_id demo_env, doc_filename = name, doc_contentType = None,
             doc_metadata = \<lparr>md_userId = the (up_auth demo_upload), md_uploadedAt = env_now demo_env,
                              md_sessionId = the (up_sessionId demo_upload), md_isCombined = False,
                              md_sourceFileIds = None, md_requestStartTime = None\<rparr>,
             doc_bytes = bytes\<rparr>]"
    by blast
  then have stored: "map (\<lambda>d. (doc_filename d, md_userId (doc_metadata d), md_uploadedAt (doc_metadata d),
              md_sessionId (doc_metadata d)))
     (excelFiles (snd (upload_POST demo_env demo_db demo_upload))) = [(''Sales.CSV'', ''user_1'', 7, ''s1'')]"
    by (auto simp: demo_upload_def demo_db_def demo_env_def)
  have empty: "sessionMetadata demo_db = []" by (simp add: demo_db_def)
  from inst sv none neq up stored empty show ?thesis by blast
qed

subsection \<open>The order of the steps\<close>

declare runStep.simps [simp del] passed.simps [simp del]

lemma MARGIN_STEPS_length [simp]: "length MARGIN_STEPS = 5"
  by (simp add: MARGIN_STEPS_def)

lemma requests_append [simp]: "requests (xs @ ys) = requests xs @ requests ys"
  by (induction xs rule: requests.induct) auto

lemma requests_finalize [simp]:
  "requests (events (finalizeAndReturn env s)) = requests (events s)"
  by (auto simp: finalizeAndReturn_def split: outcome.splits)

lemma runStep_done: "5 \<le> i \<Longrightarrow> runStep env i s = finalizeAndReturn env s"
  by (subst runStep.simps) simp

lemma runStep_success:
  assumes "i < 5" and "lo_network env (fetches s) = FetchResponse True code reply"
    and "summary env (MARGIN_STEPS ! i) (response_result (lo_parse env) reply) = Returns sm"
  shows "runStep env i s =
           runStep env (Suc i) (succeeded i (response_result (lo_parse env) reply) sm s)"
  using assms by (subst runStep.simps) (simp add: Let_def succeeded_def)

text \<open>
  A step that does not succeed ends the call: its request is the last event but for
  its answer, and only its own entries change.
\<close>

lemma runStep_failure:
  assumes "i < 5" and "\<not> step_succeeds env (fetches s) (MARGIN_STEPS ! i)"
  shows "\<exists>msg ans.
           events (runStep env i s) = events s @ Requested (MARGIN_STEPS ! i) # ans \<and>
           requests ans = [] \<and> length ans \<le> 1 \<and>
           (\<forall>e\<in>set ans. \<exists>ok. e = Answered (MARGIN_STEPS ! i) ok) \<and>
           stepResults (runStep env i s) = (stepResults s)(MARGIN_STEPS ! i \<mapsto> Error msg) \<and>
           (\<forall>step. step \<noteq> MARGIN_STEPS ! i \<longrightarrow> accum (runStep env i s) step = accum s step) \<and>
           fetches (runStep env i s) = fetches s + 1"
proof -
  have unfold: "runStep env i s =
     (let step = MARGIN_STEPS ! i;
            s1 = s\<lparr>currentStep := i, stepResults := (stepResults s)(step \<mapsto> Loading),
                   fetches := fetches s + 1, events := events s @ [Requested step]\<rparr>
        in
        case lo_network env (fetches s) of
          FetchThrows msg \<Rightarrow> s1\<lparr>stepResults := (stepResults s1)(step \<mapsto> Error msg)\<rparr>
        | FetchResponse ok code text \<Rightarrow>
            let result = response_result (lo_parse env) text;
                s2 = s1\<lparr>events := events s1 @ [Answered step ok]\<rparr>
            in
            if \<not> ok then
              s2\<lparr>stepResults := (stepResults s2)(step \<mapsto> Error (failure_message env result code))\<rparr>
            else
              let s3 = s2\<lparr>accum := (accum s2)(step \<mapsto> result)\<rparr> in
              case summary env step result of
                Throws \<Rightarrow> s3\<lparr>stepResults := (stepResults s3)(step \<mapsto> Error (lo_type_error env))\<rparr>
              | Returns text \<Rightarrow>
                  runStep env (i + 1)
                    (s3\<lparr>stepResults := (stepResults s3)(step \<mapsto> Success result text)\<rparr>))"
    using assms(1) by (subst runStep.simps) simp
  show ?thesis
    unfolding unfold using assms(2)
    by (auto simp: step_succeeds_def Let_def split: fetch_result.splits outcome.splits)
qed

lemma step_succeeds_cases:
  assumes "step_succeeds env n step"
  obtains code reply sm where "lo_network env n = FetchResponse True code reply"
    and "summary env step (response_result (lo_parse env) reply) = Returns sm"
proof -
  from assms obtain code reply where
    net: "lo_network env n = FetchResponse True code reply" and
    nt: "summary env step (response_result (lo_parse env) reply) \<noteq> Throws"
    by (auto simp: step_succeeds_def split: fetch_result.splits)
  then obtain sm where "summary env step (response_result (lo_parse env) reply) = Returns sm"
    by (cases "summary env step (response_result (lo_parse env) reply)") auto
  with net that show ?thesis by blast
qed

lemma passed_ge: "i \<le> passed env i"
proof (induction env i rule: passed.induct)
  case (1 env i)
  show ?case
  proof (cases "i < length MARGIN_STEPS \<and> step_succeeds env i (MARGIN_STEPS ! i)")
    case True
    with 1 have "i + 1 \<le> passed env (i + 1)" by simp
    moreover have "passed env i = passed env (i + 1)" using True by (subst passed.simps) simp
    ultimately show ?thesis by simp
  next
    case False
    then have "passed env i = i" by (subst passed.simps) auto
    then show ?thesis by simp
  qed
qed

lemma passed_le: "i \<le> 5 \<Longrightarrow> passed env i \<le> 5"
proof (induction env i rule: passed.induct)
  case (1 env i)
  show ?case
  proof (cases "i < length MARGIN_STEPS \<and> step_succeeds env i (MARGIN_STEPS ! i)")
    case True
    moreover have "passed env i = passed env (i + 1)" using True by (subst passed.simps) simp
    ultimately show ?thesis using 1 by simp
  next
    case False
    then have "passed env i = i" by (subst passed.simps) auto
    then show ?thesis using 1 by simp
  qed
qed

lemma runStep_requests:
  "fetches s = i \<Longrightarrow>
   requests (events (runStep env i s)) =
     requests (events s) @ take (Suc (passed env i) - i) (drop i MARGIN_STEPS)"
proof (induction "5 - i" arbitrary: i s)
  case 0
  then have "5 \<le> i" by simp
  moreover from this have "passed env i = i" by (subst passed.simps) simp
  ultimately show ?case by (simp add: runStep_done)
next
  case (Suc n)
  then have lt: "i < 5" by simp
  let ?step = "MARGIN_STEPS ! i"
  have dr: "drop i MARGIN_STEPS = ?step # drop (Suc i) MARGIN_STEPS"
    using lt by (simp add: Cons_nth_drop_Suc)
  show ?case
  proof (cases "step_succeeds env i ?step")
    case False
    then have p: "passed env i = i" by (subst passed.simps) simp
    from runStep_failure [of i env s] False lt Suc.prems
    obtain ans where "events (runStep env i s) = events s @ Requested ?step # ans" "requests ans = []"
      by auto
    then show ?thesis using p dr by simp
  next
    case True
    then obtain code reply sm where
      net: "lo_network env i = FetchResponse True code reply" and
      sm: "summary env ?step (response_result (lo_parse env) reply) = Returns sm"
      by (rule step_succeeds_cases)
    let ?s' = "succeeded i (response_result (lo_parse env) reply) sm s"
    have p: "passed env i = passed env (Suc i)" using True lt by (subst passed.simps) simp
    have ge: "Suc i \<le> passed env (Suc i)" by (rule passed_ge)
    have run: "runStep env i s = runStep env (Suc i) ?s'"
      using lt net sm Suc.prems by (intro runStep_success) auto
    have "requests (events (runStep env (Suc i) ?s')) =
            requests (events ?s') @ take (Suc (passed env (Suc i)) - Suc i) (drop (Suc i) MARGIN_STEPS)"
      using Suc.hyps(2) Suc.prems by (intro Suc.hyps(1)) (auto simp: succeeded_def)
    then show ?thesis
      using run p ge dr by (simp add: succeeded_def Suc_diff_le)
  qed
qed


lemma follows_ok_answer_Cons2:
  "follows_ok_answer (a # b # rest) \<longleftrightarrow>
     (case b of Requested step \<Rightarrow> (case prior step of Some p \<Rightarrow> a = Answered p True | None \<Rightarrow> False)
              | _ \<Rightarrow> True) \<and> follows_ok_answer (b # rest)"
  by (simp add: follows_ok_answer_def)

lemma follows_ok_answer_single [simp]: "follows_ok_answer [a]" "follows_ok_answer []"
  by (simp_all add: follows_ok_answer_def)

lemma prior_next: "i < 4 \<Longrightarrow> prior (MARGIN_STEPS ! Suc i) = Some (MARGIN_STEPS ! i)"
proof -
  assume "i < 4"
  then consider "i = 0" | "i = 1" | "i = 2" | "i = 3" by linarith
  then show ?thesis by cases (simp_all add: MARGIN_STEPS_def)
qed

lemma finalize_events:
  "\<exists>tr. events (finalizeAndReturn env s) = events s @ tr \<and> follows_ok_answer tr \<and> requests tr = [] \<and>
        (\<forall>e\<in>set tr. requests [e] = [])"
  by (auto simp: finalizeAndReturn_def follows_ok_answer_def split: outcome.splits)

lemma runStep_chain:
  "\<exists>tr. events (runStep env i s) = events s @ tr \<and> follows_ok_answer tr \<and> starts_at i tr"
proof (induction "5 - i" arbitrary: i s)
  case 0
  then have past: "5 \<le> i" by simp
  from finalize_events [of env s] obtain tr where
    tr: "events (finalizeAndReturn env s) = events s @ tr" "follows_ok_answer tr" "\<forall>e\<in>set tr. requests [e] = []"
    by blast
  then have "starts_at i tr" using past by (cases tr) (auto simp: starts_at_def)
  with tr past show ?case by (auto simp: runStep_done)
next
  case (Suc n)
  then have lt: "i < 5" by simp
  let ?step = "MARGIN_STEPS ! i"
  show ?case
  proof (cases "step_succeeds env (fetches s) ?step")
    case False
    from runStep_failure [OF lt False] obtain ans where
      ev: "events (runStep env i s) = events s @ Requested ?step # ans" and
      ans: "requests ans = []" "length ans \<le> 1"
      by blast
    have "follows_ok_answer (Requested ?step # ans)"
    proof (cases ans)
      case Nil
      then show ?thesis by simp
    next
      case (Cons a rest)
      with ans have "rest = []" "requests [a] = []" by auto
      then show ?thesis using Cons by (cases a) (auto simp: follows_ok_answer_Cons2)
    qed
    then show ?thesis using ev lt by (auto simp: starts_at_def)
  next
    case True
    then obtain code reply sm where
      net: "lo_network env (fetches s) = FetchResponse True code reply" and
      sm: "summary env ?step (response_result (lo_parse env) reply) = Returns sm"
      by (rule step_succeeds_cases)
    let ?s' = "succeeded i (response_result (lo_parse env) reply) sm s"
    have run: "runStep env i s = runStep env (Suc i) ?s'"
      using lt net sm by (rule runStep_success)
    from Suc.hyps(2) have "n = 5 - Suc i" by simp
    from Suc.hyps(1) [OF this, of ?s'] obtain tr where
      tr: "events (runStep env (Suc i) ?s') = events ?s' @ tr" "follows_ok_answer tr" "starts_at (Suc i) tr"
      by blast
    let ?tr = "Requested ?step # Answered ?step True # tr"
    have "follows_ok_answer (Answered ?step True # tr)"
    proof (cases tr)
      case Nil
      then show ?thesis by simp
    next
      case (Cons e rest)
      show ?thesis
      proof (cases "Suc i < 5")
        case True
        then have "e = Requested (MARGIN_STEPS ! Suc i)" using tr(3) Cons by (simp add: starts_at_def)
        moreover have "prior (MARGIN_STEPS ! Suc i) = Some ?step" using True by (intro prior_next) simp
        ultimately show ?thesis using tr(2) Cons by (simp add: follows_ok_answer_Cons2)
      next
        case False
        then have "requests [e] = []" using tr(3) Cons by (simp add: starts_at_def)
        then show ?thesis using tr(2) Cons by (cases e) (auto simp: follows_ok_answer_Cons2)
      qed
    qed
    then have "follows_ok_answer ?tr" by (simp add: follows_ok_answer_Cons2)
    moreover have "events (runStep env i s) = events s @ ?tr"
      using run tr(1) by (simp add: succeeded_def)
    moreover have "starts_at i ?tr" using lt by (simp add: starts_at_def)
    ultimately show ?thesis by blast
  qed
qed

lemma passed_characterised:
  "i \<le> 5 \<Longrightarrow> (\<forall>j. i \<le> j \<and> j < passed env i \<longrightarrow> step_succeeds env j (MARGIN_STEPS ! j)) \<and>
     (passed env i < 5 \<longrightarrow> \<not> step_succeeds env (passed env i) (MARGIN_STEPS ! passed env i))"
proof (induction env i rule: passed.induct)
  case (1 env i)
  show ?case
  proof (cases "i < length MARGIN_STEPS \<and> step_succeeds env i (MARGIN_STEPS ! i)")
    case True
    then have p: "passed env i = passed env (i + 1)" by (subst passed.simps) simp
    from True 1 have ih: "(\<forall>j. i + 1 \<le> j \<and> j < passed env (i + 1) \<longrightarrow> step_succeeds env j (MARGIN_STEPS ! j)) \<and>
     (passed env (i + 1) < 5 \<longrightarrow> \<not> step_succeeds env (passed env (i + 1)) (MARGIN_STEPS ! passed env (i + 1)))"
      by simp
    show ?thesis
      unfolding p using ih True
      by (metis Suc_eq_plus1 le_antisym not_less_eq_eq)
  next
    case False
    then have p: "passed env i = i" by (subst passed.simps) auto
    show ?thesis unfolding p using False by auto
  qed
qed

text \<open>
  C2: in a run, the steps requested are the five steps in their order up to and
  including the first that does not succeed (all five when every step succeeds);
  every request of a step directly follows the ok answer to the step before it; so
  after a step that fails no later step is requested.
\<close>

theorem pipeline_steps_in_order:
  "requests (events (run env)) = take (Suc (passed env 0)) MARGIN_STEPS \<and>
   follows_ok_answer (events (run env)) \<and>
   (\<forall>j < passed env 0. step_succeeds env j (MARGIN_STEPS ! j)) \<and>
   (passed env 0 < 5 \<longrightarrow> \<not> step_succeeds env (passed env 0) (MARGIN_STEPS ! passed env 0)) \<and>
   (passed env 0 = 5 \<longrightarrow> requests (events (run env)) = [Pricing, Costs, Leakage, Segments, Recommendations])"
proof -
  have req: "requests (events (run env)) = take (Suc (passed env 0)) MARGIN_STEPS"
    using runStep_requests [of initial_loader 0 env] by (simp add: run_def initial_loader_def)
  moreover have "follows_ok_answer (events (run env))"
    using runStep_chain [of env 0 initial_loader] by (auto simp: run_def initial_loader_def)
  moreover have "(\<forall>j < passed env 0. step_succeeds env j (MARGIN_STEPS ! j)) \<and>
   (passed env 0 < 5 \<longrightarrow> \<not> step_succeeds env (passed env 0) (MARGIN_STEPS ! passed env 0))"
    using passed_characterised [of 0 env] by simp
  moreover have "passed env 0 = 5 \<longrightarrow> requests (events (run env)) = [Pricing, Costs, Leakage, Segments, Recommendations]"
    using req by (simp add: MARGIN_STEPS_def)
  ultimately show ?thesis by blast
qed

lemma steady_succeeds: "step_succeeds steady_env n step"
  by (cases step) (simp_all add: step_succeeds_def steady_env_def response_result_def parse_n1
      in_template_def demo_render_def length_of_def)

lemma faulty_succeeds: "step_succeeds faulty_env n step \<longleftrightarrow> n \<noteq> 2"
  by (cases step) (simp_all add: step_succeeds_def faulty_env_def steady_env_def response_result_def parse_n1
      in_template_def demo_render_def length_of_def)

lemma passed_steady: "passed steady_env 0 = 5"
  by (simp add: passed.simps steady_succeeds)

lemma passed_faulty: "passed faulty_env 0 = 2"
  by (simp add: passed.simps faulty_succeeds)

theorem pipeline_steps_in_order_witness:
  "passed steady_env 0 = 5 \<and>
   requests (events (run steady_env)) = [Pricing, Costs, Leakage, Segments, Recommendations] \<and>
   passed faulty_env 0 = 2 \<and>
   \<not> step_succeeds faulty_env 2 Leakage \<and>
   requests (events (run faulty_env)) = [Pricing, Costs, Leakage] \<and>
   follows_ok_answer (events (run faulty_env))"
  using pipeline_steps_in_order [of steady_env] pipeline_steps_in_order [of faulty_env]
  by (simp add: passed_steady passed_faulty MARGIN_STEPS_def)

subsection \<open>The final record\<close>

lemma steps_distinct: "i < 5 \<Longrightarrow> j < 5 \<Longrightarrow> MARGIN_STEPS ! i = MARGIN_STEPS ! j \<longleftrightarrow> i = j"
proof -
  have "distinct MARGIN_STEPS" by (simp add: MARGIN_STEPS_def)
  then show "i < 5 \<Longrightarrow> j < 5 \<Longrightarrow> MARGIN_STEPS ! i = MARGIN_STEPS ! j \<longleftrightarrow> i = j"
    by (simp add: nth_eq_iff_index_eq)
qed

lemma accum_finalize [simp]: "accum (finalizeAndReturn env s) = accum s"
  by (simp add: finalizeAndReturn_def split: outcome.splits)

lemma stepResults_finalize [simp]: "stepResults (finalizeAndReturn env s) = stepResults s"
  by (simp add: finalizeAndReturn_def split: outcome.splits)

lemma success_not_null:
  assumes "step_succeeds env n step"
  shows "response_object env n \<noteq> JNull"
proof
  assume null: "response_object env n = JNull"
  from assms obtain code reply sm where
    net: "lo_network env n = FetchResponse True code reply" and
    sm: "summary env step (response_result (lo_parse env) reply) = Returns sm"
    by (rule step_succeeds_cases)
  from net null have "response_result (lo_parse env) reply = JNull" by (simp add: response_object_def)
  with sm show False by simp
qed

text \<open>
  When every step from \<open>i\<close> on succeeds, \<open>runStep\<close> reaches \<open>finalizeAndReturn\<close>
  with the response object of each of them stored.
\<close>

lemma runStep_all_succeed:
  "fetches s = i \<Longrightarrow> i \<le> 5 \<Longrightarrow> passed env i = 5 \<Longrightarrow>
   \<exists>s'. runStep env i s = finalizeAndReturn env s' \<and>
        events s' = events s @
          concat (map (\<lambda>j. [Requested (MARGIN_STEPS ! j), Answered (MARGIN_STEPS ! j) True]) [i..<5]) \<and>
        (\<forall>j<5. accum s' (MARGIN_STEPS ! j) =
                 (if i \<le> j then Some (response_object env j) else accum s (MARGIN_STEPS ! j))) \<and>
        (\<forall>j<5. if i \<le> j then is_success (stepResults s' (MARGIN_STEPS ! j))
                else stepResults s' (MARGIN_STEPS ! j) = stepResults s (MARGIN_STEPS ! j))"
proof (induction "5 - i" arbitrary: i s)
  case 0
  then have "i = 5" by simp
  then show ?case by (intro exI [of _ s]) (simp add: runStep_done)
next
  case (Suc n)
  then have lt: "i < 5" by simp
  let ?step = "MARGIN_STEPS ! i"
  have ok: "step_succeeds env i ?step"
  proof (rule ccontr)
    assume "\<not> step_succeeds env i ?step"
    then have "passed env i = i" by (subst passed.simps) simp
    with Suc.prems lt show False by simp
  qed
  then obtain code reply sm where
    net: "lo_network env i = FetchResponse True code reply" and
    sm: "summary env ?step (response_result (lo_parse env) reply) = Returns sm"
    by (rule step_succeeds_cases)
  have obj: "response_result (lo_parse env) reply = response_object env i"
    using net by (simp add: response_object_def)
  let ?s1 = "succeeded i (response_object env i) sm s"
  have run: "runStep env i s = runStep env (Suc i) ?s1"
    using runStep_success [of i env s code reply sm] lt net sm Suc.prems(1) obj by simp
  have p: "passed env (Suc i) = 5"
    using ok lt Suc.prems(3) by (subst (asm) passed.simps) simp
  have "\<exists>s'. runStep env (Suc i) ?s1 = finalizeAndReturn env s' \<and>
        events s' = events ?s1 @
          concat (map (\<lambda>j. [Requested (MARGIN_STEPS ! j), Answered (MARGIN_STEPS ! j) True]) [Suc i..<5]) \<and>
        (\<forall>j<5. accum s' (MARGIN_STEPS ! j) =
                 (if Suc i \<le> j then Some (response_object env j) else accum ?s1 (MARGIN_STEPS ! j))) \<and>
        (\<forall>j<5. if Suc i \<le> j then is_success (stepResults s' (MARGIN_STEPS ! j))
                else stepResults s' (MARGIN_STEPS ! j) = stepResults ?s1 (MARGIN_STEPS ! j))"
    using Suc.hyps(2) Suc.prems(1) lt p by (intro Suc.hyps(1)) (auto simp: succeeded_def)
  then obtain s' where
    fin: "runStep env (Suc i) ?s1 = finalizeAndReturn env s'" and
    ev: "events s' = events ?s1 @
          concat (map (\<lambda>j. [Requested (MARGIN_STEPS ! j), Answered (MARGIN_STEPS ! j) True]) [Suc i..<5])" and
    acc: "\<forall>j<5. accum s' (MARGIN_STEPS ! j) =
                 (if Suc i \<le> j then Some (response_object env j) else accum ?s1 (MARGIN_STEPS ! j))" and
    res: "\<forall>j<5. if Suc i \<le> j then is_success (stepResults s' (MARGIN_STEPS ! j))
                else stepResults s' (MARGIN_STEPS ! j) = stepResults ?s1 (MARGIN_STEPS ! j)"
    by blast
  have up: "[i..<5] = i # [Suc i..<5]" using lt by (simp add: upt_conv_Cons)
  have ev': "events s' = events s @
          concat (map (\<lambda>j. [Requested (MARGIN_STEPS ! j), Answered (MARGIN_STEPS ! j) True]) [i..<5])"
    using ev by (simp add: up succeeded_def)
  have acc': "\<forall>j<5. accum s' (MARGIN_STEPS ! j) =
                 (if i \<le> j then Some (response_object env j) else accum s (MARGIN_STEPS ! j))"
  proof (intro allI impI)
    fix j :: nat assume j: "j < 5"
    consider "Suc i \<le> j" | "j = i" | "j < i" by linarith
    then show "accum s' (MARGIN_STEPS ! j) =
                 (if i \<le> j then Some (response_object env j) else accum s (MARGIN_STEPS ! j))"
    proof cases
      case 1 then show ?thesis using acc j by simp
    next
      case 2 then show ?thesis using acc j by (simp add: succeeded_def)
    next
      case 3 then show ?thesis using acc j lt by (simp add: succeeded_def steps_distinct)
    qed
  qed
  have res': "\<forall>j<5. if i \<le> j then is_success (stepResults s' (MARGIN_STEPS ! j))
                else stepResults s' (MARGIN_STEPS ! j) = stepResults s (MARGIN_STEPS ! j)"
  proof (intro allI impI)
    fix j :: nat assume j: "j < 5"
    consider "Suc i \<le> j" | "j = i" | "j < i" by linarith
    then show "if i \<le> j then is_success (stepResults s' (MARGIN_STEPS ! j))
                else stepResults s' (MARGIN_STEPS ! j) = stepResults s (MARGIN_STEPS ! j)"
    proof cases
      case 1 then show ?thesis using res j by auto
    next
      case 2 then show ?thesis using res j by (auto simp: succeeded_def is_success_def)
    next
      case 3 then show ?thesis using res j lt by (auto simp: succeeded_def steps_distinct)
    qed
  qed
  from run fin ev' acc' res' show ?case by auto
qed


lemma finalResults_returns:
  assumes "action_list (first_of [acc Recommendations] (JObj [])) ''priority_actions''"
    and "action_list (first_of [acc Recommendations] (JObj [])) ''quick_wins''"
  shows "\<exists>final. finalResults env acc = Returns final"
proof -
  let ?recs = "first_of [acc Recommendations] (JObj [])"
  from assms(1) obtain xs where
    xs: "first_of [get_field ?recs (js ''priority_actions'')] (JArr []) = JArr xs" "JNull \<notin> set xs"
    by (auto simp: action_list_def split: json.splits simp del: first_of.simps)
  from assms(2) obtain ys where
    ys: "first_of [get_field ?recs (js ''quick_wins'')] (JArr []) = JArr ys" "JNull \<notin> set ys"
    by (auto simp: action_list_def split: json.splits simp del: first_of.simps)
  from xs ys show ?thesis
    by (simp add: finalResults_def Let_def map_array_def del: first_of.simps)
qed

lemma final_record_fields:
  "get_field (final_record env acc a w) (js ''pricing'') = Some (first_of [acc Pricing] (JObj []))"
  "get_field (final_record env acc a w) (js ''costs'') = Some (first_of [acc Costs] (JObj []))"
  "get_field (final_record env acc a w) (js ''leakage'') = Some (first_of [acc Leakage] (JObj []))"
  "get_field (final_record env acc a w) (js ''segments'') = Some (first_of [acc Segments] (JObj []))"
  "get_field (final_record env acc a w) (js ''recommendations'') =
     Some (first_of [acc Recommendations] (JObj []))"
  "truthy (final_record env acc a w)"
  by (simp_all add: final_record_def Let_def del: first_of.simps)

lemma finalResults_fields:
  assumes "finalResults env acc = Returns final"
  shows "get_field final (js ''pricing'') = Some (first_of [acc Pricing] (JObj [])) \<and>
         get_field final (js ''costs'') = Some (first_of [acc Costs] (JObj [])) \<and>
         get_field final (js ''leakage'') = Some (first_of [acc Leakage] (JObj [])) \<and>
         get_field final (js ''segments'') = Some (first_of [acc Segments] (JObj [])) \<and>
         get_field final (js ''recommendations'') = Some (first_of [acc Recommendations] (JObj [])) \<and>
         truthy final"
proof -
  from assms obtain a w where "final = final_record env acc a w"
    by (auto simp: finalResults_def Let_def split: outcome.splits simp del: first_of.simps)
  then show ?thesis by (simp only: final_record_fields simp_thms)
qed

lemma map_of_obj_set: "map_of (obj_set k v kvs) k' = (if k' = k then Some v else map_of kvs k')"
  by (induction kvs) auto

lemma an_key_set_fields [simp]: "an_key (set_fields kvs d) = an_key d"
  by (simp add: set_fields_def)

lemma find_upsert_analysis:
  "find (\<lambda>d. an_key d = key) (upsert_analysis key kvs docs) =
     Some (set_fields kvs (case find (\<lambda>d. an_key d = key) docs of
                             Some d \<Rightarrow> d
                           | None \<Rightarrow> \<lparr>an_key = key, an_fields = []\<rparr>))"
  unfolding upsert_analysis_def by (rule find_upsert) simp_all

lemma save_POST_stores:
  assumes "se_auth senv = Some user" and "user \<noteq> []" and "se_db_up senv" and "runId \<noteq> []" and "truthy final"
  shows "status (fst (save_POST senv docs (Some runId) (Some final))) = 200 \<and>
         (\<exists>d. find (\<lambda>d. an_key d = ByRun runId user) (snd (save_POST senv docs (Some runId) (Some final))) = Some d \<and>
              map_of (an_fields d) (js ''analysis'') = Some final \<and>
              map_of (an_fields d) (js ''status'') = Some (JStr (js ''completed'')))"
proof -
  have nn: "\<not> nullish (Some final)" using assms(5) by (cases final) auto
  show ?thesis
    using assms nn
    by (simp add: save_POST_def find_upsert_analysis set_fields_def map_of_obj_set)
qed

lemma nth_steps [simp]:
  "MARGIN_STEPS ! 0 = Pricing" "MARGIN_STEPS ! Suc 0 = Costs" "MARGIN_STEPS ! 2 = Leakage"
  "MARGIN_STEPS ! 3 = Segments" "MARGIN_STEPS ! 4 = Recommendations"
  by (simp_all add: MARGIN_STEPS_def)

subsection \<open>Retry\<close>

lemma runStep_extends: "\<exists>tr. events (runStep env i s) = events s @ tr"
  using runStep_chain [of env i s] by blast

lemma added_append [simp]: "events s' = events s @ tr \<Longrightarrow> added s s' = tr"
  by (simp add: added_def)

text \<open>
  \<open>runStep(i)\<close> leaves the entries of the steps before \<open>i\<close> alone and requests none
  of them.
\<close>

lemma runStep_frame:
  "i \<le> 5 \<Longrightarrow>
   (\<forall>j<i. accum (runStep env i s) (MARGIN_STEPS ! j) = accum s (MARGIN_STEPS ! j) \<and>
          stepResults (runStep env i s) (MARGIN_STEPS ! j) = stepResults s (MARGIN_STEPS ! j)) \<and>
   set (requests (added s (runStep env i s))) \<subseteq> set (drop i MARGIN_STEPS)"
proof (induction "5 - i" arbitrary: i s)
  case 0
  then have "5 \<le> i" by simp
  moreover from finalize_events [of env s] obtain tr where
    "events (finalizeAndReturn env s) = events s @ tr" "requests tr = []" by blast
  ultimately show ?case by (simp add: runStep_done)
next
  case (Suc n)
  then have lt: "i < 5" by simp
  let ?step = "MARGIN_STEPS ! i"
  have dr: "drop i MARGIN_STEPS = ?step # drop (Suc i) MARGIN_STEPS"
    using lt by (simp add: Cons_nth_drop_Suc)
  show ?case
  proof (cases "step_succeeds env (fetches s) ?step")
    case False
    from runStep_failure [OF lt False] obtain msg ans where
      ev: "events (runStep env i s) = events s @ Requested ?step # ans" "requests ans = []" and
      res: "stepResults (runStep env i s) = (stepResults s)(?step \<mapsto> Error msg)" and
      acc: "\<forall>step. step \<noteq> ?step \<longrightarrow> accum (runStep env i s) step = accum s step"
      by blast
    have "\<forall>j<i. MARGIN_STEPS ! j \<noteq> ?step" using lt by (simp add: steps_distinct)
    then show ?thesis using ev res acc dr by simp
  next
    case True
    then obtain code reply sm where
      net: "lo_network env (fetches s) = FetchResponse True code reply" and
      sm: "summary env ?step (response_result (lo_parse env) reply) = Returns sm"
      by (rule step_succeeds_cases)
    let ?s1 = "succeeded i (response_result (lo_parse env) reply) sm s"
    have run: "runStep env i s = runStep env (Suc i) ?s1"
      using lt net sm by (rule runStep_success)
    from Suc.hyps(2) have n: "n = 5 - Suc i" by simp
    from lt have le: "Suc i \<le> 5" by simp
    note ih = Suc.hyps(1) [OF n le, of ?s1]
    from runStep_extends [of env "Suc i" ?s1] obtain tr where
      tr: "events (runStep env (Suc i) ?s1) = events ?s1 @ tr" by blast
    then have tr': "events (runStep env i s) = events s @ Requested ?step # Answered ?step True # tr"
      using run by (simp add: succeeded_def)
    have req: "set (requests tr) \<subseteq> set (drop (Suc i) MARGIN_STEPS)"
      using ih tr by simp
    have "\<forall>j<i. MARGIN_STEPS ! j \<noteq> ?step" using lt by (simp add: steps_distinct)
    then have "\<forall>j<i. accum (runStep env i s) (MARGIN_STEPS ! j) = accum s (MARGIN_STEPS ! j) \<and>
          stepResults (runStep env i s) (MARGIN_STEPS ! j) = stepResults s (MARGIN_STEPS ! j)"
      using ih run by (simp add: succeeded_def)
    moreover have "set (requests (added s (runStep env i s))) \<subseteq> set (drop i MARGIN_STEPS)"
      using tr' req dr by auto
    ultimately show ?thesis by blast
  qed
qed

lemma runStep_progress:
  "i \<le> 5 \<Longrightarrow> \<forall>j<i. is_success (stepResults s (MARGIN_STEPS ! j)) \<Longrightarrow>
   \<forall>j. i < j \<and> j < 5 \<longrightarrow> stepResults s (MARGIN_STEPS ! j) = Some Pending \<Longrightarrow>
   \<exists>k. progress k (runStep env i s)"
proof (induction "5 - i" arbitrary: i s)
  case 0
  then have "i = 5" by simp
  with 0 have "progress 5 (runStep env i s)" by (simp add: runStep_done progress_def)
  then show ?case by blast
next
  case (Suc n)
  then have lt: "i < 5" by simp
  let ?step = "MARGIN_STEPS ! i"
  show ?case
  proof (cases "step_succeeds env (fetches s) ?step")
    case False
    from runStep_failure [OF lt False] obtain msg where
      res: "stepResults (runStep env i s) = (stepResults s)(?step \<mapsto> Error msg)"
      by blast
    have "progress i (runStep env i s)"
      unfolding progress_def res using lt Suc.prems
      by (auto simp: steps_distinct is_error_def)
    then show ?thesis by blast
  next
    case True
    then obtain code reply sm where
      net: "lo_network env (fetches s) = FetchResponse True code reply" and
      sm: "summary env ?step (response_result (lo_parse env) reply) = Returns sm"
      by (rule step_succeeds_cases)
    let ?s1 = "succeeded i (response_result (lo_parse env) reply) sm s"
    have run: "runStep env i s = runStep env (Suc i) ?s1"
      using lt net sm by (rule runStep_success)
    from Suc.hyps(2) have n: "n = 5 - Suc i" by simp
    from lt have le: "Suc i \<le> 5" by simp
    have before: "\<forall>j<Suc i. is_success (stepResults ?s1 (MARGIN_STEPS ! j))"
      using Suc.prems(2) lt by (auto simp: succeeded_def is_success_def steps_distinct less_Suc_eq)
    have after: "\<forall>j. Suc i < j \<and> j < 5 \<longrightarrow> stepResults ?s1 (MARGIN_STEPS ! j) = Some Pending"
      using Suc.prems(3) lt by (auto simp: succeeded_def steps_distinct)
    from Suc.hyps(1) [OF n le before after] run show ?thesis by simp
  qed
qed

lemma findIndex_Some:
  "findIndex p xs = Some k \<longleftrightarrow> k < length xs \<and> p (xs ! k) \<and> (\<forall>j<k. \<not> p (xs ! j))"
proof (induction xs arbitrary: k)
  case Nil
  then show ?case by simp
next
  case (Cons x xs)
  show ?case
  proof (cases "p x")
    case True
    then show ?thesis by (cases k) auto
  next
    case False
    show ?thesis
    proof (cases k)
      case 0
      with False show ?thesis by auto
    next
      case (Suc k')
      have "(\<forall>j<Suc k'. \<not> p ((x # xs) ! j)) \<longleftrightarrow> (\<forall>j<k'. \<not> p (xs ! j))"
        using False by (auto simp: less_Suc_eq_0_disj)
      with False Suc Cons.IH [of k'] show ?thesis by auto
    qed
  qed
qed

lemma findIndex_None: "findIndex p xs = None \<longleftrightarrow> (\<forall>x\<in>set xs. \<not> p x)"
  by (induction xs) auto

lemma success_not_error: "is_success r \<Longrightarrow> \<not> is_error r"
  by (auto simp: is_success_def is_error_def split: option.splits step_result.splits)

lemma progress_failed_index:
  assumes "progress k s"
    and "findIndex (\<lambda>step. is_error (stepResults s step)) MARGIN_STEPS = Some f"
  shows "k = f"
proof -
  from assms(2) have f: "f < 5" "is_error (stepResults s (MARGIN_STEPS ! f))"
    by (simp_all add: findIndex_Some)
  have "\<not> f < k" using assms(1) f success_not_error by (auto simp: progress_def)
  moreover have "\<not> k < f" using assms(1) f by (auto simp: progress_def is_error_def)
  ultimately show ?thesis by simp
qed

lemma reachable_progress: "reachable env s \<Longrightarrow> \<exists>k. progress k s"
proof (induction rule: reachable.induct)
  case started
  show ?case
    unfolding run_def by (rule runStep_progress) (simp_all add: initial_loader_def)
next
  case (retried s)
  then obtain k where k: "progress k s" by blast
  show ?case
  proof (cases "findIndex (\<lambda>step. is_error (stepResults s step)) MARGIN_STEPS")
    case None
    then have "handleRetry env s = s\<lparr>isRetrying := True\<rparr>" by (simp add: handleRetry_def)
    with k show ?thesis by (auto simp: progress_def)
  next
    case (Some f)
    with k have kf: "k = f" by (rule progress_failed_index)
    let ?s0 = "s\<lparr>isRetrying := False, stepResults := (stepResults s)(MARGIN_STEPS ! f \<mapsto> Pending)\<rparr>"
    have run: "handleRetry env s = runStep env f ?s0" using Some by (simp add: handleRetry_def)
    from Some have f5: "f < 5" by (simp add: findIndex_Some)
    then have f: "f \<le> 5" by simp
    have "\<exists>k. progress k (runStep env f ?s0)"
    proof (rule runStep_progress [OF f])
      show "\<forall>j<f. is_success (stepResults ?s0 (MARGIN_STEPS ! j))"
        using k kf f5 by (auto simp: progress_def steps_distinct)
      show "\<forall>j. f < j \<and> j < 5 \<longrightarrow> stepResults ?s0 (MARGIN_STEPS ! j) = Some Pending"
        using k kf f5 by (auto simp: progress_def steps_distinct)
    qed
    with run show ?thesis by simp
  qed
qed

lemma step_index: "\<exists>j<5. step = MARGIN_STEPS ! j"
proof (cases step)
  case Pricing then show ?thesis by (intro exI [of _ 0]) simp
next
  case Costs then show ?thesis by (intro exI [of _ 1]) simp
next
  case Leakage then show ?thesis by (intro exI [of _ 2]) simp
next
  case Segments then show ?thesis by (intro exI [of _ 3]) simp
next
  case Recommendations then show ?thesis by (intro exI [of _ 4]) simp
qed



lemma runStep_progress_passed:
  "fetches s = i \<Longrightarrow> i \<le> 5 \<Longrightarrow> \<forall>j<i. is_success (stepResults s (MARGIN_STEPS ! j)) \<Longrightarrow>
   \<forall>j. i < j \<and> j < 5 \<longrightarrow> stepResults s (MARGIN_STEPS ! j) = Some Pending \<Longrightarrow>
   progress (passed env i) (runStep env i s)"
proof (induction "5 - i" arbitrary: i s)
  case 0
  then have i: "i = 5" by simp
  then have "passed env i = 5" by (subst passed.simps) simp
  with 0 i show ?case by (simp add: runStep_done progress_def)
next
  case (Suc n)
  then have lt: "i < 5" by simp
  let ?step = "MARGIN_STEPS ! i"
  show ?case
  proof (cases "step_succeeds env i ?step")
    case False
    then have p: "passed env i = i" by (subst passed.simps) simp
    from runStep_failure [of i env s] lt False Suc.prems(1) obtain msg where
      res: "stepResults (runStep env i s) = (stepResults s)(?step \<mapsto> Error msg)"
      by auto
    show ?thesis
      unfolding progress_def res p using lt Suc.prems
      by (auto simp: steps_distinct is_error_def)
  next
    case True
    then obtain code reply sm where
      net: "lo_network env i = FetchResponse True code reply" and
      sm: "summary env ?step (response_result (lo_parse env) reply) = Returns sm"
      by (rule step_succeeds_cases)
    let ?s1 = "succeeded i (response_result (lo_parse env) reply) sm s"
    have p: "passed env i = passed env (Suc i)" using True lt by (subst passed.simps) simp
    have run: "runStep env i s = runStep env (Suc i) ?s1"
      using runStep_success [of i env s code reply sm] lt net sm Suc.prems(1) by simp
    from Suc.hyps(2) have n: "n = 5 - Suc i" by simp
    from lt have le: "Suc i \<le> 5" by simp
    have fe: "fetches ?s1 = Suc i" using Suc.prems(1) by (simp add: succeeded_def)
    have before: "\<forall>j<Suc i. is_success (stepResults ?s1 (MARGIN_STEPS ! j))"
      using Suc.prems(3) lt by (auto simp: succeeded_def is_success_def steps_distinct less_Suc_eq)
    have after: "\<forall>j. Suc i < j \<and> j < 5 \<longrightarrow> stepResults ?s1 (MARGIN_STEPS ! j) = Some Pending"
      using Suc.prems(4) lt by (auto simp: succeeded_def steps_distinct)
    from Suc.hyps(1) [OF n fe le before after] run p show ?thesis by simp
  qed
qed

lemma run_progress: "progress (passed env 0) (run env)"
  unfolding run_def by (rule runStep_progress_passed) (simp_all add: initial_loader_def)


subsection \<open>The final record of a finished loader\<close>

lemma requests_closing [simp]: "requests (closing env acc) = []"
  by (simp add: closing_def split: outcome.splits)

lemma finalize_closing: "events (finalizeAndReturn env s) = events s @ closing env (accum s)"
  by (simp add: finalizeAndReturn_def closing_def split: outcome.splits)

lemma fetches_finalize [simp]: "fetches (finalizeAndReturn env s) = fetches s"
  by (simp add: finalizeAndReturn_def split: outcome.splits)

lemma last_request_kept:
  assumes "last_request evs step n" and "step \<notin> set (requests tr)"
  shows "last_request (evs @ tr) step n"
  using assms unfolding last_request_def
  by (auto simp: nth_append) (metis add_diff_inverse_nat nth_mem nat_add_left_cancel_less)

lemma last_request_new:
  assumes "requests tr = [step]"
  shows "last_request (evs @ tr) step (length (requests evs))"
  using assms by (simp add: last_request_def nth_append)

lemma stored_at_kept:
  assumes "stored_at env s step n" and "events t = events s @ tr" and "step \<notin> set (requests tr)"
    and "accum t step = accum s step" and "stepResults t step = stepResults s step"
  shows "stored_at env t step n"
  using assms last_request_kept [of "events s" step n tr] by (simp add: stored_at_def)

lemma stored_at_success: "stored_at env s step n \<Longrightarrow> is_success (stepResults s step)"
  by (auto simp: stored_at_def is_success_def split: option.splits step_result.splits)

text \<open>
  What a call of \<open>runStep\<close> leaves: the loader has come as far as some step and is
  settled there.
\<close>

lemma runStep_settled:
  "i \<le> 5 \<Longrightarrow> fetches s = length (requests (events s)) \<Longrightarrow> list_all step_event (events s) \<Longrightarrow>
   \<forall>j<i. \<exists>n. stored_at env s (MARGIN_STEPS ! j) n \<Longrightarrow>
   \<forall>j. i < j \<and> j < 5 \<longrightarrow> stepResults s (MARGIN_STEPS ! j) = Some Pending \<Longrightarrow>
   \<exists>k. progress k (runStep env i s) \<and> settled env k (runStep env i s)"
proof (induction "5 - i" arbitrary: i s)
  case 0
  then have i: "i = 5" by simp
  let ?t = "finalizeAndReturn env s"
  have ev: "events ?t = events s @ closing env (accum s)" by (rule finalize_closing)
  have "progress 5 ?t"
    using 0(5) i stored_at_success by (auto simp: progress_def)
  moreover have "settled env 5 ?t"
  proof -
    have "\<forall>j<5. \<exists>n. stored_at env ?t (MARGIN_STEPS ! j) n"
    proof (intro allI impI)
      fix j :: nat assume "j < 5"
      with 0(5) i obtain n where "stored_at env s (MARGIN_STEPS ! j) n" by blast
      then have "stored_at env ?t (MARGIN_STEPS ! j) n"
        by (rule stored_at_kept [OF _ ev]) simp_all
      then show "\<exists>n. stored_at env ?t (MARGIN_STEPS ! j) n" ..
    qed
    then show ?thesis using 0(3,4) ev by (auto simp: settled_def)
  qed
  ultimately show ?case using i by (auto simp: runStep_done)
next
  case (Suc m)
  then have lt: "i < 5" by simp
  let ?step = "MARGIN_STEPS ! i"
  have others: "\<forall>j<i. MARGIN_STEPS ! j \<noteq> ?step" using lt by (simp add: steps_distinct)
  show ?case
  proof (cases "step_succeeds env (fetches s) ?step")
    case False
    let ?t = "runStep env i s"
    from runStep_failure [OF lt False] obtain msg ans where
      ev: "events ?t = events s @ Requested ?step # ans" and
      ans: "requests ans = []" "\<forall>e\<in>set ans. \<exists>ok. e = Answered ?step ok" and
      res: "stepResults ?t = (stepResults s)(?step \<mapsto> Error msg)" and
      acc: "\<forall>step. step \<noteq> ?step \<longrightarrow> accum ?t step = accum s step" and
      fe: "fetches ?t = fetches s + 1"
      by blast
    have "progress i ?t"
      unfolding progress_def res using lt Suc.prems(4,5) others stored_at_success
      by (auto simp: is_error_def steps_distinct)
    moreover have "settled env i ?t"
    proof -
      have "\<forall>j<i. \<exists>n. stored_at env ?t (MARGIN_STEPS ! j) n"
      proof (intro allI impI)
        fix j :: nat assume j: "j < i"
        with Suc.prems(4) obtain n where "stored_at env s (MARGIN_STEPS ! j) n" by blast
        then have "stored_at env ?t (MARGIN_STEPS ! j) n"
          using ev ans(1) others j acc res by (intro stored_at_kept [of env s _ n ?t "Requested ?step # ans"]) auto
        then show "\<exists>n. stored_at env ?t (MARGIN_STEPS ! j) n" ..
      qed
      moreover have "list_all step_event (events ?t)"
        using Suc.prems(3) ev ans(2) by (auto simp: list_all_iff step_event_def)
      moreover have "fetches ?t = length (requests (events ?t))"
        using fe ev ans(1) Suc.prems(2) by simp
      ultimately show ?thesis using lt by (simp add: settled_def)
    qed
    ultimately show ?thesis by blast
  next
    case True
    then obtain code reply sm where
      net: "lo_network env (fetches s) = FetchResponse True code reply" and
      sm: "summary env ?step (response_result (lo_parse env) reply) = Returns sm"
      by (rule step_succeeds_cases)
    have obj: "response_result (lo_parse env) reply = response_object env (fetches s)"
      using net by (simp add: response_object_def)
    let ?s1 = "succeeded i (response_object env (fetches s)) sm s"
    have run: "runStep env i s = runStep env (Suc i) ?s1"
      using runStep_success [OF lt net sm] obj by simp
    have ev1: "events ?s1 = events s @ [Requested ?step, Answered ?step True]"
      by (simp add: succeeded_def)
    from Suc.hyps(2) have m: "m = 5 - Suc i" by simp
    from lt have le: "Suc i \<le> 5" by simp
    have fe: "fetches ?s1 = length (requests (events ?s1))"
      using Suc.prems(2) by (simp add: succeeded_def)
    have plain: "list_all step_event (events ?s1)"
      using Suc.prems(3) by (simp add: succeeded_def step_event_def)
    have before: "\<forall>j<Suc i. \<exists>n. stored_at env ?s1 (MARGIN_STEPS ! j) n"
    proof (intro allI impI)
      fix j :: nat assume "j < Suc i"
      then consider "j < i" | "j = i" by linarith
      then show "\<exists>n. stored_at env ?s1 (MARGIN_STEPS ! j) n"
      proof cases
        case 1
        with Suc.prems(4) obtain n where "stored_at env s (MARGIN_STEPS ! j) n" by blast
        then have "stored_at env ?s1 (MARGIN_STEPS ! j) n"
          using others 1 by (intro stored_at_kept [OF _ ev1]) (auto simp: succeeded_def)
        then show ?thesis ..
      next
        case 2
        have "last_request (events ?s1) ?step (length (requests (events s)))"
          unfolding ev1 by (rule last_request_new) simp
        then have "stored_at env ?s1 ?step (fetches s)"
          using True Suc.prems(2) by (simp add: stored_at_def succeeded_def)
        with 2 show ?thesis by blast
      qed
    qed
    have after: "\<forall>j. Suc i < j \<and> j < 5 \<longrightarrow> stepResults ?s1 (MARGIN_STEPS ! j) = Some Pending"
      using Suc.prems(5) lt by (auto simp: succeeded_def steps_distinct)
    from Suc.hyps(1) [OF m le fe plain before after] run show ?thesis by simp
  qed
qed

lemma reachable_settled: "reachable env s \<Longrightarrow> \<exists>k. progress k s \<and> settled env k s"
proof (induction rule: reachable.induct)
  case started
  show ?case
    unfolding run_def by (rule runStep_settled) (simp_all add: initial_loader_def)
next
  case (retried s)
  then obtain k where k: "progress k s" "settled env k s" by blast
  show ?case
  proof (cases "findIndex (\<lambda>step. is_error (stepResults s step)) MARGIN_STEPS")
    case None
    then have same: "handleRetry env s = s\<lparr>isRetrying := True\<rparr>" by (simp add: handleRetry_def)
    have "progress k (s\<lparr>isRetrying := True\<rparr>)" using k(1) by (auto simp: progress_def)
    moreover have "settled env k (s\<lparr>isRetrying := True\<rparr>)"
      using k(2) by (simp add: settled_def stored_at_def)
    ultimately show ?thesis using same by auto
  next
    case (Some f)
    with k(1) have kf: "k = f" by (rule progress_failed_index)
    let ?s0 = "s\<lparr>isRetrying := False, stepResults := (stepResults s)(MARGIN_STEPS ! f \<mapsto> Pending)\<rparr>"
    have run: "handleRetry env s = runStep env f ?s0" using Some by (simp add: handleRetry_def)
    from Some have f5: "f < 5" by (simp add: findIndex_Some)
    then have f: "f \<le> 5" by simp
    have "\<exists>k. progress k (runStep env f ?s0) \<and> settled env k (runStep env f ?s0)"
    proof (rule runStep_settled [OF f])
      show "fetches ?s0 = length (requests (events ?s0))" using k(2) by (simp add: settled_def)
      show "list_all step_event (events ?s0)" using k(2) kf f5 by (simp add: settled_def)
      show "\<forall>j<f. \<exists>n. stored_at env ?s0 (MARGIN_STEPS ! j) n"
        using k(2) kf f5 by (auto simp: settled_def stored_at_def steps_distinct)
      show "\<forall>j. f < j \<and> j < 5 \<longrightarrow> stepResults ?s0 (MARGIN_STEPS ! j) = Some Pending"
        using k(1) kf f5 by (auto simp: progress_def steps_distinct)
    qed
    with run show ?thesis by simp
  qed
qed

lemma careless_network:
  "lo_network careless_env n =
     (if n = 4 then FetchResponse True 200 (Some (js ''{\"priority_actions\":[null]}''))
      else FetchResponse True 200 (Some (js ''{\"n\":1}'')))"
  "lo_parse careless_env = JSON_parse" "lo_render careless_env = demo_render"
  "lo_runId careless_env = Some ''margin_1''"
  by (simp_all add: careless_env_def steady_env_def)

lemma parse_null_action:
  "JSON_parse (js ''{\"priority_actions\":[null]}'') = Returns (JObj [(js ''priority_actions'', JArr [JNull])])"
  by (simp add: parse_eval)

lemma js_nonempty: "js (c # cs) \<noteq> []"
  by (simp add: js_def)

lemma response_object_careless:
  "response_object careless_env n =
     (if n = 4 then JObj [(js ''priority_actions'', JArr [JNull])] else JObj [(js ''n'', JNum 1)])"
  by (simp add: response_object_def careless_network response_result_def parse_n1 parse_null_action
      js_nonempty)

lemma careless_succeeds: "step_succeeds careless_env n step"
  by (cases step) (simp_all add: step_succeeds_def careless_network response_result_def parse_n1
      parse_null_action in_template_def demo_render_def length_of_def js_nonempty)

lemma passed_careless: "passed careless_env 0 = 5"
  by (simp add: passed.simps careless_succeeds)

text \<open>
  C4, as stated: after all five steps have succeeded, a final record is assembled and
  saved. In the run of \<open>careless_env\<close> all five steps succeed, the run has a run
  identifier, and the stored recommendations are \<open>{"priority_actions":[null]}\<close>:
  building the final record throws, and the events of the run end with the answer to
  the fifth step, without a request to save and without completion.
\<close>

theorem all_steps_succeed_without_final_record:
  "lo_runId careless_env = Some ''margin_1'' \<and>
   is_success (stepResults (run careless_env) Pricing) \<and>
   is_success (stepResults (run careless_env) Costs) \<and>
   is_success (stepResults (run careless_env) Leakage) \<and>
   is_success (stepResults (run careless_env) Segments) \<and>
   is_success (stepResults (run careless_env) Recommendations) \<and>
   accum (run careless_env) Recommendations = Some (JObj [(js ''priority_actions'', JArr [JNull])]) \<and>
   finalResults careless_env (accum (run careless_env)) = Throws \<and>
   events (run careless_env) =
     [Requested Pricing, Answered Pricing True, Requested Costs, Answered Costs True,
      Requested Leakage, Answered Leakage True, Requested Segments, Answered Segments True,
      Requested Recommendations, Answered Recommendations True]"
proof -
  from runStep_all_succeed [of initial_loader 0 careless_env] passed_careless
  obtain s' where
    fin: "run careless_env = finalizeAndReturn careless_env s'" and
    ev: "events s' =
          concat (map (\<lambda>j. [Requested (MARGIN_STEPS ! j), Answered (MARGIN_STEPS ! j) True]) [0..<5])" and
    acc: "\<forall>j<5. accum s' (MARGIN_STEPS ! j) = Some (response_object careless_env j)" and
    res: "\<forall>j<5. is_success (stepResults s' (MARGIN_STEPS ! j))"
    by (auto simp: run_def initial_loader_def)
  have a4: "accum s' Recommendations = Some (JObj [(js ''priority_actions'', JArr [JNull])])"
    using acc [rule_format, of 4] by (simp add: response_object_careless)
  then have throws: "finalResults careless_env (accum s') = Throws"
    by (simp add: finalResults_def map_array_def Let_def)
  have up: "[0..<5] = [0, 1, 2, 3, 4]" by (simp add: upt_rec)
  have "events (run careless_env) = events s'"
    using fin throws by (simp add: finalizeAndReturn_def)
  then have events: "events (run careless_env) =
     [Requested Pricing, Answered Pricing True, Requested Costs, Answered Costs True,
      Requested Leakage, Answered Leakage True, Requested Segments, Answered Segments True,
      Requested Recommendations, Answered Recommendations True]"
    using ev by (simp add: up)
  have r0: "is_success (stepResults (run careless_env) Pricing)" using res [rule_format, of 0] fin by simp
  have r1: "is_success (stepResults (run careless_env) Costs)" using res [rule_format, of 1] fin by simp
  have r2: "is_success (stepResults (run careless_env) Leakage)" using res [rule_format, of 2] fin by simp
  have r3: "is_success (stepResults (run careless_env) Segments)" using res [rule_format, of 3] fin by simp
  have r4: "is_success (stepResults (run careless_env) Recommendations)"
    using res [rule_format, of 4] fin by simp
  from r0 r1 r2 r3 r4 a4 throws events fin show ?thesis by (simp add: careless_network)
qed

text \<open>
  C4, amended: in every state the loader reaches, by a run or by retries after it, in
  which all five steps have succeeded, provided the run has a run identifier and the
  stored recommendations carry their \<open>priority_actions\<close> and \<open>quick_wins\<close> as lists
  without \<open>null\<close> (or not at all): one final record has been built, the events end
  with the request to save it under the run identifier and its hand-over to
  \<open>onComplete\<close>, and before them are only requests and answers of the steps; every
  step is stored with the response object of its last request; the \<open>pricing\<close>,
  \<open>costs\<close>, \<open>leakage\<close>, \<open>segments\<close> and \<open>recommendations\<close> of the record are these
  stored response objects; and the save handler, for an authenticated user and a
  database that answers, upserts the document of that run identifier and user with
  the record as \<open>analysis\<close> and the status \<open>completed\<close>.
\<close>

theorem final_record_assembled_and_saved:
  assumes "reachable env s"
    and "\<forall>step. is_success (stepResults s step)"
    and "lo_runId env = Some runId" and "runId \<noteq> []"
    and "accum s Recommendations = Some recommendations"
    and "action_list recommendations ''priority_actions''"
    and "action_list recommendations ''quick_wins''"
  shows "\<exists>final tr.
           finalResults env (accum s) = Returns final \<and>
           events s = tr @ [SaveRequested runId final, Completed final] \<and>
           list_all step_event tr \<and>
           (\<forall>step. \<exists>n. stored_at env s step n) \<and>
           get_field final (js ''pricing'') = accum s Pricing \<and>
           get_field final (js ''costs'') = accum s Costs \<and>
           get_field final (js ''leakage'') = accum s Leakage \<and>
           get_field final (js ''segments'') = accum s Segments \<and>
           get_field final (js ''recommendations'') = accum s Recommendations \<and>
           (\<forall>senv docs user. se_auth senv = Some user \<and> user \<noteq> [] \<and> se_db_up senv \<longrightarrow>
              status (fst (save_POST senv docs (Some runId) (Some final))) = 200 \<and>
              (\<exists>d. find (\<lambda>d. an_key d = ByRun runId user)
                      (snd (save_POST senv docs (Some runId) (Some final))) = Some d \<and>
                   map_of (an_fields d) (js ''analysis'') = Some final \<and>
                   map_of (an_fields d) (js ''status'') = Some (JStr (js ''completed''))))"
proof -
  from reachable_settled [OF assms(1)] obtain k where k: "progress k s" "settled env k s" by blast
  have k5: "k = 5"
  proof (rule ccontr)
    assume "k \<noteq> 5"
    with k(1) have "k < 5" "is_error (stepResults s (MARGIN_STEPS ! k))" by (auto simp: progress_def)
    with assms(2) success_not_error show False by blast
  qed
  from k(2) k5 obtain tr where
    tr: "events s = tr @ closing env (accum s)" "list_all step_event tr" and
    st: "\<forall>j<5. \<exists>n. stored_at env s (MARGIN_STEPS ! j) n"
    by (auto simp: settled_def)
  have stored: "\<forall>step. \<exists>n. stored_at env s step n"
  proof
    fix step
    from step_index obtain j where "j < 5" "step = MARGIN_STEPS ! j" by blast
    with st show "\<exists>n. stored_at env s step n" by blast
  qed
  have held: "first_of [accum s step] (JObj []) = the (accum s step) \<and> accum s step \<noteq> None" for step
  proof -
    from stored obtain n where n: "stored_at env s step n" by blast
    then have "response_object env n \<noteq> JNull" using success_not_null by (auto simp: stored_at_def)
    moreover from n have "accum s step = Some (response_object env n)" by (simp add: stored_at_def)
    ultimately show ?thesis by (cases "response_object env n") auto
  qed
  have recs: "first_of [accum s Recommendations] (JObj []) = recommendations"
    using held [of Recommendations] assms(5) by simp
  from finalResults_returns [of "accum s" env] assms(6,7) recs
  obtain final where final: "finalResults env (accum s) = Returns final" by auto
  note fields = finalResults_fields [OF final]
  have events: "events s = tr @ [SaveRequested runId final, Completed final]"
    using tr(1) final assms(3,4) by (simp add: closing_def)
  have copied: "get_field final (js ''pricing'') = accum s Pricing"
    "get_field final (js ''costs'') = accum s Costs"
    "get_field final (js ''leakage'') = accum s Leakage"
    "get_field final (js ''segments'') = accum s Segments"
    "get_field final (js ''recommendations'') = accum s Recommendations"
    using fields held [of Pricing] held [of Costs] held [of Leakage] held [of Segments]
      held [of Recommendations]
    by auto
  have saved: "\<forall>senv docs user. se_auth senv = Some user \<and> user \<noteq> [] \<and> se_db_up senv \<longrightarrow>
              status (fst (save_POST senv docs (Some runId) (Some final))) = 200 \<and>
              (\<exists>d. find (\<lambda>d. an_key d = ByRun runId user)
                      (snd (save_POST senv docs (Some runId) (Some final))) = Some d \<and>
                   map_of (an_fields d) (js ''analysis'') = Some final \<and>
                   map_of (an_fields d) (js ''status'') = Some (JStr (js ''completed'')))"
    using save_POST_stores [OF _ _ _ assms(4)] fields by blast
  from final events tr(2) stored copied saved show ?thesis by blast
qed

text \<open>
  The loader of \<open>faulty_env\<close>: its third request fails, a retry asks for the third step
  again and the run goes through.
\<close>

lemmas loader_eval = run_def handleRetry_def runStep.simps initial_loader_def response_result_def
  in_template_def demo_render_def length_of_def failure_message_def or_else_def is_error_def
  is_success_def decimal.simps Let_def finalize_closing js_nonempty

lemma faulty_network:
  "lo_network faulty_env n =
     (if n = 2 then FetchResponse False 500 (Some (js ''{\"error\":\"down\"}''))
      else FetchResponse True 200 (Some (js ''{\"n\":1}'')))"
  "lo_parse faulty_env = JSON_parse" "lo_render faulty_env = demo_render"
  "lo_runId faulty_env = Some ''margin_1''"
  by (simp_all add: faulty_env_def steady_env_def)

lemma retried_results: "is_success (stepResults (handleRetry faulty_env (run faulty_env)) step)"
  by (cases step) (simp_all add: loader_eval faulty_network parse_n1 parse_down MARGIN_STEPS_def)

lemma retried_accum:
  "accum (handleRetry faulty_env (run faulty_env)) step = Some (JObj [(js ''n'', JNum 1)])"
  by (cases step) (simp_all add: loader_eval faulty_network parse_n1 parse_down MARGIN_STEPS_def)

lemma retried_events:
  "events (handleRetry faulty_env (run faulty_env)) =
     [Requested Pricing, Answered Pricing True, Requested Costs, Answered Costs True,
      Requested Leakage, Answered Leakage False, Requested Leakage, Answered Leakage True,
      Requested Segments, Answered Segments True,
      Requested Recommendations, Answered Recommendations True] @
     closing faulty_env (accum (handleRetry faulty_env (run faulty_env)))"
  by (simp add: loader_eval faulty_network parse_n1 parse_down MARGIN_STEPS_def)

theorem final_record_assembled_and_saved_witness:
  "reachable faulty_env (handleRetry faulty_env (run faulty_env)) \<and>
   is_error (stepResults (run faulty_env) Leakage) \<and>
   is_success (stepResults (handleRetry faulty_env (run faulty_env)) Leakage) \<and>
   lo_runId faulty_env = Some ''margin_1'' \<and>
   accum (handleRetry faulty_env (run faulty_env)) Recommendations = Some (JObj [(js ''n'', JNum 1)]) \<and>
   action_list (JObj [(js ''n'', JNum 1)]) ''priority_actions'' \<and>
   action_list (JObj [(js ''n'', JNum 1)]) ''quick_wins'' \<and>
   (\<exists>final. get_field final (js ''pricing'') = Some (JObj [(js ''n'', JNum 1)]) \<and>
            get_field final (js ''leakage'') = Some (JObj [(js ''n'', JNum 1)]) \<and>
            get_field final (js ''recommendations'') = Some (JObj [(js ''n'', JNum 1)]) \<and>
            events (handleRetry faulty_env (run faulty_env)) =
              [Requested Pricing, Answered Pricing True, Requested Costs, Answered Costs True,
               Requested Leakage, Answered Leakage False, Requested Leakage, Answered Leakage True,
               Requested Segments, Answered Segments True,
               Requested Recommendations, Answered Recommendations True,
               SaveRequested ''margin_1'' final, Completed final])"
proof -
  let ?s = "handleRetry faulty_env (run faulty_env)"
  have r: "reachable faulty_env ?s" by (intro reachable.intros)
  have err: "is_error (stepResults (run faulty_env) Leakage)"
    by (simp add: loader_eval faulty_network parse_n1 parse_down MARGIN_STEPS_def)
  have ok: "\<forall>step. is_success (stepResults ?s step)" using retried_results by blast
  have al: "action_list (JObj [(js ''n'', JNum 1)]) ''priority_actions''"
    "action_list (JObj [(js ''n'', JNum 1)]) ''quick_wins''"
    by (simp_all add: action_list_def)
  from final_record_assembled_and_saved [OF r ok faulty_network(4) _ retried_accum al]
  obtain final where
    final: "finalResults faulty_env (accum ?s) = Returns final" and
    fields: "get_field final (js ''pricing'') = accum ?s Pricing"
      "get_field final (js ''leakage'') = accum ?s Leakage"
      "get_field final (js ''recommendations'') = accum ?s Recommendations"
    by auto
  have "closing faulty_env (accum ?s) = [SaveRequested ''margin_1'' final, Completed final]"
    using final by (simp add: closing_def faulty_network)
  then have "events ?s =
              [Requested Pricing, Answered Pricing True, Requested Costs, Answered Costs True,
               Requested Leakage, Answered Leakage False, Requested Leakage, Answered Leakage True,
               Requested Segments, Answered Segments True,
               Requested Recommendations, Answered Recommendations True,
               SaveRequested ''margin_1'' final, Completed final]"
    using retried_events by simp
  with fields have "\<exists>final. get_field final (js ''pricing'') = Some (JObj [(js ''n'', JNum 1)]) \<and>
            get_field final (js ''leakage'') = Some (JObj [(js ''n'', JNum 1)]) \<and>
            get_field final (js ''recommendations'') = Some (JObj [(js ''n'', JNum 1)]) \<and>
            events ?s =
              [Requested Pricing, Answered Pricing True, Requested Costs, Answered Costs True,
               Requested Leakage, Answered Leakage False, Requested Leakage, Answered Leakage True,
               Requested Segments, Answered Segments True,
               Requested Recommendations, Answered Recommendations True,
               SaveRequested ''margin_1'' final, Completed final]"
    by (auto simp: retried_accum)
  with r err retried_results [of Leakage] faulty_network(4) retried_accum [of Recommendations] al
  show ?thesis by blast
qed

subsection \<open>The cost handler and the ownership check\<close>

lemma costs_not_owned:
  assumes "configured env" and "request_fileId req = Some fileId" and "xe_ObjectId env fileId = Some oid"
    and "xe_auth env = Some user" and "user \<noteq> []" and "xe_db_up env"
    and "owned_file (ms_files st) oid user = None"
  shows "costs_POST env st req = (error_response 404 ''File not found or access denied'', st)"
  using assms by (simp add: costs_POST_def configured_def owned_file_def)

lemma costs_state_kept:
  assumes "\<forall>fileId oid user. request_fileId req = Some fileId \<and> xe_ObjectId env fileId = Some oid \<and>
             xe_auth env = Some user \<longrightarrow> owned_file (ms_files st) oid user = None"
  shows "snd (costs_POST env st req) = st"
proof (cases "request_fileId req")
  case None
  then show ?thesis by (simp add: costs_POST_def)
next
  case (Some fileId)
  show ?thesis
  proof (cases "xe_ObjectId env fileId")
    case None
    with Some show ?thesis by (simp add: costs_POST_def)
  next
    case oid: (Some oid)
    show ?thesis
    proof (cases "xe_auth env")
      case None
      with Some oid show ?thesis by (simp add: costs_POST_def)
    next
      case user: (Some user)
      with assms Some oid have "owned_file (ms_files st) oid user = None" by blast
      with Some oid user show ?thesis by (simp add: costs_POST_def owned_file_def)
    qed
  qed
qed

lemma logical_not_owned:
  assumes "le_auth env = Some user" and "user \<noteq> []" and "lq_fileId req = Some fileId" and "fileId \<noteq> []"
    and "le_db_up env" and "le_ObjectId env fileId = Some oid"
    and "owned_file (ms_files st) oid user = None"
  shows "logical_POST env st req = (status_response 404 ''File not found'', st)"
  using assms by (simp add: logical_POST_def owned_file_def)

lemma logical_state_kept:
  assumes "\<forall>fileId oid user. lq_fileId req = Some fileId \<and> le_ObjectId env fileId = Some oid \<and>
             le_auth env = Some user \<longrightarrow> owned_file (ms_files st) oid user = None"
  shows "snd (logical_POST env st req) = st"
proof (cases "lq_fileId req")
  case None
  then show ?thesis by (simp add: logical_POST_def)
next
  case (Some fileId)
  show ?thesis
  proof (cases "le_ObjectId env fileId")
    case None
    with Some show ?thesis by (simp add: logical_POST_def)
  next
    case oid: (Some oid)
    show ?thesis
    proof (cases "le_auth env")
      case None
      with Some oid show ?thesis by (simp add: logical_POST_def)
    next
      case user: (Some user)
      with assms Some oid have "owned_file (ms_files st) oid user = None" by blast
      with Some oid user show ?thesis by (simp add: logical_POST_def owned_file_def)
    qed
  qed
qed


lemma fallback_fields:
  "get_field (fallback_analysis data) (js ''total_products'') = Some (JNum (of_nat (length data)))"
  "get_field (fallback_analysis data) (js ''avg_margin_pct'') = Some (JNum 25)"
  "get_field (fallback_analysis data) (js ''negative_margin_count'') = Some (JNum 0)"
  "get_field (fallback_analysis data) (js ''below_target_count'') = Some (JNum (of_nat (length data * 2 div 10)))"
  "get_field (fallback_analysis data) (js ''margin_distribution'') =
     Some (JObj [(js ''negative'', JNum 0),
                 (js ''0-10%'', JNum (of_nat (length data div 10))),
                 (js ''10-30%'', JNum (of_nat (length data * 3 div 10))),
                 (js ''30%+'', JNum (of_nat (length data * 6 div 10)))])"
  "get_field (fallback_analysis data) (js ''worst_performers'') =
     Some (JArr (map (\<lambda>(i, r). worst_performer i r) (enumerate 0 (take 5 data))))"
  by (simp_all add: fallback_analysis_def)

lemma step_response_fallback:
  "body (step_response step (fallback_analysis data)) =
     JObj ((js ''status'', JStr (js ''success'')) # (js ''step'', JStr (js step)) #
           spread (fallback_analysis data))"
  by (simp add: step_response_def spread_def fallback_analysis_def)


lemma costs_unparseable:
  assumes "configured env" and "request_fileId req = Some fileId" and "xe_ObjectId env fileId = Some oid"
    and "xe_auth env = Some user" and "user \<noteq> []" and "xe_db_up env"
    and "owned_file (ms_files st) oid user = Some file" and "xe_download_ok env"
    and "xe_processFileData env file = Returns (columns, data)" and "columns \<noteq> []" and "data \<noteq> []"
    and "xe_vertex_ready env"
    and "xe_generateContent env (costs_prompt_of req columns data) = Returns reply"
    and "xe_parse env (analysisRaw_of reply) = Throws"
  shows "costs_POST env st req =
           (step_response ''cost_analysis'' (fallback_analysis data),
            if xe_write_ok env then
              st\<lparr>ms_model_calls := ms_model_calls st + 1,
                 ms_analyses :=
                   upsert_analysis (ByFile oid user)
                     [(js ''analysis'', JStr (analysisRaw_of reply)),
                      (js ''parsed'', fallback_analysis data),
                      (js ''updatedAt'', JNum (of_nat (xe_now env)))]
                     (ms_analyses st)\<rparr>
            else st\<lparr>ms_model_calls := ms_model_calls st + 1\<rparr>)"
  using assms by (simp add: costs_POST_def configured_def owned_file_def Let_def)

text \<open>
  C7: when the request reaches the model and the reply does not parse as JSON, the cost
  handler answers 200 with status \<open>success\<close> and the made-up analysis
  (\<open>avg_margin_pct\<close> 25, \<open>negative_margin_count\<close> 0, counts that are fractions of the
  row count, worst performers numbered from the first five rows), and, when the write
  goes through, stores that analysis as \<open>parsed\<close> beside the raw reply.
\<close>

theorem unparseable_cost_reply_gives_placeholder:
  assumes "configured env" and "request_fileId req = Some fileId" and "xe_ObjectId env fileId = Some oid"
    and "xe_auth env = Some user" and "user \<noteq> []" and "xe_db_up env"
    and "owned_file (ms_files st) oid user = Some file" and "xe_download_ok env"
    and "xe_processFileData env file = Returns (columns, data)" and "columns \<noteq> []" and "data \<noteq> []"
    and "xe_vertex_ready env"
    and "xe_generateContent env (costs_prompt_of req columns data) = Returns reply"
    and "xe_parse env (analysisRaw_of reply) = Throws"
  shows "status (fst (costs_POST env st req)) = 200 \<and>
         body (fst (costs_POST env st req)) =
           JObj ((js ''status'', JStr (js ''success'')) # (js ''step'', JStr (js ''cost_analysis'')) #
                 spread (fallback_analysis data)) \<and>
         get_field (fallback_analysis data) (js ''avg_margin_pct'') = Some (JNum 25) \<and>
         get_field (fallback_analysis data) (js ''negative_margin_count'') = Some (JNum 0) \<and>
         get_field (fallback_analysis data) (js ''total_products'') = Some (JNum (of_nat (length data))) \<and>
         get_field (fallback_analysis data) (js ''below_target_count'') =
           Some (JNum (of_nat (length data * 2 div 10))) \<and>
         get_field (fallback_analysis data) (js ''margin_distribution'') =
           Some (JObj [(js ''negative'', JNum 0),
                       (js ''0-10%'', JNum (of_nat (length data div 10))),
                       (js ''10-30%'', JNum (of_nat (length data * 3 div 10))),
                       (js ''30%+'', JNum (of_nat (length data * 6 div 10)))]) \<and>
         get_field (fallback_analysis data) (js ''worst_performers'') =
           Some (JArr (map (\<lambda>(i, r). worst_performer i r) (enumerate 0 (take 5 data)))) \<and>
         (xe_write_ok env \<longrightarrow>
            (\<exists>d. find (\<lambda>d. an_key d = ByFile oid user) (ms_analyses (snd (costs_POST env st req))) = Some d \<and>
                 map_of (an_fields d) (js ''parsed'') = Some (fallback_analysis data) \<and>
                 map_of (an_fields d) (js ''analysis'') = Some (JStr (analysisRaw_of reply))))"
proof -
  note run = costs_unparseable [OF assms]
  have "status (fst (costs_POST env st req)) = 200"
    unfolding run by (simp add: step_response_def)
  moreover have "body (fst (costs_POST env st req)) =
           JObj ((js ''status'', JStr (js ''success'')) # (js ''step'', JStr (js ''cost_analysis'')) #
                 spread (fallback_analysis data))"
    unfolding run by (simp add: step_response_fallback)
  moreover have "xe_write_ok env \<longrightarrow>
            (\<exists>d. find (\<lambda>d. an_key d = ByFile oid user) (ms_analyses (snd (costs_POST env st req))) = Some d \<and>
                 map_of (an_fields d) (js ''parsed'') = Some (fallback_analysis data) \<and>
                 map_of (an_fields d) (js ''analysis'') = Some (JStr (analysisRaw_of reply)))"
    unfolding run by (simp add: find_upsert_analysis set_fields_def map_of_obj_set)
  ultimately show ?thesis using fallback_fields [of data] by simp
qed

lemma setting_defaults:
  "setting None ''neural-land-469712-t7'' \<noteq> []" "setting None ''us-central1'' \<noteq> []"
  by (simp_all add: setting_def trim_chars_def is_space_def)

lemma demo_configured: "configured demo_costs_env"
  by (simp add: configured_def demo_costs_env_def setting_defaults)

lemma demo_request_fileId: "request_fileId demo_costs_request = Some ''65f0000000000000000000a1''"
  by (simp add: request_fileId_def demo_costs_request_def trimmed_def trim_chars_def is_space_def)

lemma demo_ObjectId_a1: "demo_ObjectId ''65f0000000000000000000a1'' = Some ''65f0000000000000000000a1''"
  by (simp add: demo_ObjectId_def to_lower_def)

lemma parse_prose: "JSON_parse (js ''Sorry, no JSON'') = Throws"
  by (simp add: parse_eval)

theorem unparseable_cost_reply_gives_placeholder_witness:
  "configured demo_costs_env \<and>
   request_fileId demo_costs_request = Some ''65f0000000000000000000a1'' \<and>
   owned_file (ms_files demo_margin_state) ''65f0000000000000000000a1'' ''user_1'' = Some demo_file \<and>
   xe_parse demo_costs_env (analysisRaw_of (Some (js ''Sorry, no JSON''))) = Throws \<and>
   status (fst (costs_POST demo_costs_env demo_margin_state demo_costs_request)) = 200 \<and>
   get_field (body (fst (costs_POST demo_costs_env demo_margin_state demo_costs_request))) (js ''status'') =
     Some (JStr (js ''success'')) \<and>
   get_field (body (fst (costs_POST demo_costs_env demo_margin_state demo_costs_request))) (js ''avg_margin_pct'') =
     Some (JNum 25) \<and>
   get_field (fallback_analysis demo_rows) (js ''worst_performers'') =
     Some (JArr [worst_performer 0 (demo_rows ! 0), worst_performer 1 (demo_rows ! 1)]) \<and>
   get_field (worst_performer 1 (demo_rows ! 1)) (js ''product_id'') = Some (JStr (js ''P2''))"
proof -
  have own: "owned_file (ms_files demo_margin_state) ''65f0000000000000000000a1'' ''user_1'' = Some demo_file"
    by (simp add: owned_file_def demo_margin_state_def demo_file_def)
  have thw: "xe_parse demo_costs_env (analysisRaw_of (Some (js ''Sorry, no JSON''))) = Throws"
    by (simp add: demo_costs_env_def analysisRaw_of_def parse_prose)
  have rows: "demo_rows \<noteq> []" by (simp add: demo_rows_def)
  note inst = unparseable_cost_reply_gives_placeholder
    [of demo_costs_env demo_costs_request "''65f0000000000000000000a1''" "''65f0000000000000000000a1''"
        "''user_1''" demo_margin_state demo_file "[''product_id'', ''cost'', ''net_price'']" demo_rows
        "Some (js ''Sorry, no JSON'')",
     OF demo_configured demo_request_fileId _ _ _ _ own _ _ _ rows _ _ thw]
  have res: "status (fst (costs_POST demo_costs_env demo_margin_state demo_costs_request)) = 200"
    "body (fst (costs_POST demo_costs_env demo_margin_state demo_costs_request)) =
           JObj ((js ''status'', JStr (js ''success'')) # (js ''step'', JStr (js ''cost_analysis'')) #
                 spread (fallback_analysis demo_rows))"
    "get_field (fallback_analysis demo_rows) (js ''worst_performers'') =
           Some (JArr (map (\<lambda>(i, r). worst_performer i r) (enumerate 0 (take 5 demo_rows))))"
    using inst by (simp_all add: demo_costs_env_def demo_ObjectId_a1)
  have b1: "get_field (body (fst (costs_POST demo_costs_env demo_margin_state demo_costs_request))) (js ''status'') =
     Some (JStr (js ''success''))"
    unfolding res(2) by simp
  have b2: "get_field (body (fst (costs_POST demo_costs_env demo_margin_state demo_costs_request))) (js ''avg_margin_pct'') =
     Some (JNum 25)"
    unfolding res(2) by (simp add: spread_def fallback_analysis_def)
  have w: "get_field (fallback_analysis demo_rows) (js ''worst_performers'') =
     Some (JArr [worst_performer 0 (demo_rows ! 0), worst_performer 1 (demo_rows ! 1)])"
    unfolding res(3) by (simp add: demo_rows_def)
  have p2: "get_field (worst_performer 1 (demo_rows ! 1)) (js ''product_id'') = Some (JStr (js ''P2''))"
    by (simp add: worst_performer_def demo_rows_def decimal.simps)
  from demo_configured demo_request_fileId own thw res(1) b1 b2 w p2 show ?thesis by blast
qed


text \<open>
  C8: a request of an authenticated user with a well-formed file identifier that names
  no file of that user is answered 404 by the cost handler (configured, database
  reachable) and by the logical-checks handler, and the state is the one before: no
  model call, no write to \<open>analyses\<close>. Whatever the configuration, a request that
  names no file of its user leaves the state as it was.
\<close>

theorem request_for_unowned_file_is_404:
  "(configured env \<and> request_fileId req = Some fileId \<and> xe_ObjectId env fileId = Some oid \<and>
    xe_auth env = Some user \<and> user \<noteq> [] \<and> xe_db_up env \<and>
    owned_file (ms_files st) oid user = None \<longrightarrow>
      costs_POST env st req = (error_response 404 ''File not found or access denied'', st)) \<and>
   (le_auth lenv = Some luser \<and> luser \<noteq> [] \<and> lq_fileId lreq = Some lfileId \<and> lfileId \<noteq> [] \<and>
    le_db_up lenv \<and> le_ObjectId lenv lfileId = Some loid \<and>
    owned_file (ms_files st) loid luser = None \<longrightarrow>
      logical_POST lenv st lreq = (status_response 404 ''File not found'', st)) \<and>
   ((\<forall>fileId oid user. request_fileId req = Some fileId \<and> xe_ObjectId env fileId = Some oid \<and>
        xe_auth env = Some user \<longrightarrow> owned_file (ms_files st) oid user = None) \<longrightarrow>
      snd (costs_POST env st req) = st) \<and>
   ((\<forall>fileId oid user. lq_fileId lreq = Some fileId \<and> le_ObjectId lenv fileId = Some oid \<and>
        le_auth lenv = Some user \<longrightarrow> owned_file (ms_files st) oid user = None) \<longrightarrow>
      snd (logical_POST lenv st lreq) = st)"
  using costs_not_owned [of env req fileId oid user st]
    logical_not_owned [of lenv luser lreq lfileId loid st]
    costs_state_kept [of req env st] logical_state_kept [of lreq lenv st]
  by blast

theorem request_for_unowned_file_is_404_witness:
  "configured (demo_costs_env\<lparr>xe_auth := Some ''user_2''\<rparr>) \<and>
   request_fileId demo_costs_request = Some ''65f0000000000000000000a1'' \<and>
   owned_file (ms_files demo_margin_state) ''65f0000000000000000000a1'' ''user_2'' = None \<and>
   costs_POST (demo_costs_env\<lparr>xe_auth := Some ''user_2''\<rparr>) demo_margin_state demo_costs_request =
     (error_response 404 ''File not found or access denied'', demo_margin_state) \<and>
   logical_POST demo_logical_env demo_margin_state
       \<lparr>lq_fileId = Some ''65f0000000000000000000a1'', lq_runId = None\<rparr> =
     (status_response 404 ''File not found'', demo_margin_state)"
proof -
  let ?env = "demo_costs_env\<lparr>xe_auth := Some ''user_2''\<rparr>"
  let ?lreq = "\<lparr>lq_fileId = Some ''65f0000000000000000000a1'', lq_runId = None\<rparr>"
  have conf: "configured ?env" using demo_configured by (simp add: configured_def)
  have own: "owned_file (ms_files demo_margin_state) ''65f0000000000000000000a1'' ''user_2'' = None"
    by (simp add: owned_file_def demo_margin_state_def demo_file_def)
  have oid: "xe_ObjectId ?env ''65f0000000000000000000a1'' = Some ''65f0000000000000000000a1''"
    "le_ObjectId demo_logical_env ''65f0000000000000000000a1'' = Some ''65f0000000000000000000a1''"
    by (simp_all add: demo_costs_env_def demo_logical_env_def demo_ObjectId_a1)
  have rest: "xe_auth ?env = Some ''user_2''" "xe_db_up ?env" "le_auth demo_logical_env = Some ''user_2''"
    "le_db_up demo_logical_env" "lq_fileId ?lreq = Some ''65f0000000000000000000a1''"
    by (simp_all add: demo_costs_env_def demo_logical_env_def)
  from request_for_unowned_file_is_404
    [of ?env demo_costs_request "''65f0000000000000000000a1''" "''65f0000000000000000000a1''" "''user_2''"
        demo_margin_state demo_logical_env "''user_2''" ?lreq "''65f0000000000000000000a1''"
        "''65f0000000000000000000a1''"]
    conf demo_request_fileId own oid rest
  show ?thesis by simp
qed

subsection \<open>Combining twice\<close>

text \<open>
  When the lookup of an existing combined file succeeds, the handler returns that file
  and neither reads a file, nor calls the model, nor stores anything.
\<close>

lemma combine_reuses_existing:
  assumes "present (ce_MONGODB_URI env)" and "present (ce_OPENROUTER_API_KEY env)"
    and "ce_auth env = Some user" and "user \<noteq> []" and "sid \<noteq> []" and "sid \<notin> set (cs_locks st)"
    and "ce_db_up env"
    and "existingCombinedFile (cs_db st) user sid
           (fileIds_of (recentFiles (cs_db st) user sid (ce_requestStartTime env))) = Some existing"
  shows "combine_POST env st (Some sid) =
           (\<lparr>status = 200, body = JObj [(js ''fileId'', JStr (js (doc_id existing)))]\<rparr>, st)"
  using assms by (simp add: combine_POST_def Let_def)

lemma parse_rows: "JSON_parse (js ''[{\"n\":1}]'') = Returns (JArr [JObj [(js ''n'', JNum 1)]])"
  by (simp add: parse_eval)

lemma parseAIResponse_rows:
  "parseAIResponse JSON_parse (JStr (js ''[{\"n\":1}]'')) = Returns (JArr [JObj [(js ''n'', JNum 1)]])"
proof -
  have "cleanResponse (js ''[{\"n\":1}]'') = js ''[{\"n\":1}]''"
    by (simp add: cleanResponse_def trim_def js_def starts_with_def is_space_def)
  then show ?thesis by (simp add: parseAIResponse_def parse_rows)
qed

lemma new_sheet_rows:
  "new_sheet [JObj [(js ''n'', JNum 1)]] =
     Returns [Header [js ''n''], Record [js ''n''] (JObj [(js ''n'', JNum 1)])]"
  by (simp add: new_sheet_def is_index_key_def is_digit_unit_def js_def)

lemma read_sales_workbook:
  "read_dataset first_combine sales_workbook =
     Returns (''[File: sales.xlsx]'' @ [CHR 0x0A] @ ''Columns: sku, qty'' @ [CHR 0x0A] @
              ''Sample Rows:'' @ [CHR 0x0A] @ ''A7|2'' @ [CHR 0x0A])"
  by (simp add: read_dataset_def first_combine_def sales_workbook_def demo_xlsx_load_def ends_with_def
      to_lower_def dataset_text_def getRow_def cell_values_def upt_rec)

lemma first_combine_result:
  "after_first_combine =
     (\<lparr>status = 200, body = JObj [(js ''fileId'', JStr (js ''65f0000000000000000000c1''))]\<rparr>,
      \<lparr>cs_db = \<lparr>excelFiles =
                 [sales_workbook,
                  \<lparr>doc_id = ''65f0000000000000000000c1'', doc_filename = ''combined-3.xlsx'',
                   doc_contentType = Some ''application/vnd.openxmlformats-officedocument.spreadsheetml.sheet'',
                   doc_metadata = \<lparr>md_userId = ''user_1'', md_uploadedAt = 3, md_sessionId = ''s1'',
                                    md_isCombined = True,
                                    md_sourceFileIds = Some ''65f0000000000000000000a1'',
                                    md_requestStartTime = Some 2\<rparr>,
                   doc_bytes = [80, 75, 3, 4, 2]\<rparr>],
               sessionMetadata = []\<rparr>,
       cs_locks = [],
       cs_api_calls =
         [\<lparr>cp_datasets = [''[File: sales.xlsx]'' @ [CHR 0x0A] @ ''Columns: sku, qty'' @ [CHR 0x0A] @
                             ''Sample Rows:'' @ [CHR 0x0A] @ ''A7|2'' @ [CHR 0x0A]],
           cp_joinType = None, cp_customPrompt = None\<rparr>]\<rparr>)"
proof -
  have recent: "recentFiles (cs_db one_upload) ''user_1'' ''s1'' 2 = [sales_workbook]"
    by (simp add: recentFiles_def one_upload_def sales_workbook_def)
  have ids: "fileIds_of [sales_workbook] = ''65f0000000000000000000a1''"
    by (simp add: fileIds_of_def sales_workbook_def)
  have none: "existingCombinedFile (cs_db one_upload) ''user_1'' ''s1'' ''65f0000000000000000000a1'' = None"
    by (simp add: existingCombinedFile_def one_upload_def sales_workbook_def)
  have prefs: "combine_preferences (cs_db one_upload) ''s1'' = \<lparr>combineData = False, joinType = [], customPrompt = []\<rparr>"
    by (simp add: combine_preferences_def one_upload_def)
  have env: "ce_MONGODB_URI first_combine = Some ''mongodb://db''" "ce_OPENROUTER_API_KEY first_combine = Some ''key''"
    "ce_auth first_combine = Some ''user_1''" "ce_db_up first_combine" "ce_requestStartTime first_combine = 2"
    "ce_storedAt first_combine = 3" "ce_new_id first_combine = ''65f0000000000000000000c1''"
    "ce_api first_combine = (\<lambda>p. ApiContent (js ''[{\"n\":1}]''))" "ce_parse first_combine = JSON_parse"
    "ce_writeBuffer first_combine = (\<lambda>rows. Returns [80, 75, 3, 4, length rows])" "ce_upload_ok first_combine"
    by (simp_all add: first_combine_def)
  have st: "cs_locks one_upload = []" "cs_api_calls one_upload = []"
    "cs_db one_upload = \<lparr>excelFiles = [sales_workbook], sessionMetadata = []\<rparr>"
    by (simp_all add: one_upload_def)
  show ?thesis
    unfolding after_first_combine_def combine_POST_def
    by (simp add: env recent ids none prefs read_sales_workbook parseAIResponse_rows new_sheet_rows
        decimal.simps Let_def)
       (simp add: one_upload_def)
qed

text \<open>
  The files a request takes as its sources are all the stored files of the user and
  session uploaded before it started, combined or not.
\<close>

lemma combined_file_is_a_source:
  assumes "f \<in> set (excelFiles db)" and "md_userId (doc_metadata f) = user"
    and "md_sessionId (doc_metadata f) = sid" and "md_uploadedAt (doc_metadata f) \<le> start"
  shows "f \<in> set (recentFiles db user sid start)"
  using assms by (simp add: recentFiles_def)

text \<open>
  C6: combining twice in a row. The first request reads the uploaded workbook \<open>a1\<close>,
  calls the model and stores the combined file \<open>c1\<close> with the source list \<open>a1\<close>. For
  the second request, with no upload in between, \<open>c1\<close> is itself one of the session's
  files: the list of identifiers is \<open>a1,c1\<close>, no combined file records that list,
  both files are read, the model is called a second time and a second combined file
  is stored.
\<close>

theorem repeated_combine_calls_model_again:
  "status (fst after_first_combine) = 200 \<and>
   body (fst after_first_combine) = JObj [(js ''fileId'', JStr (js ''65f0000000000000000000c1''))] \<and>
   map (\<lambda>f. (doc_id f, doc_filename f, md_isCombined (doc_metadata f), md_sourceFileIds (doc_metadata f)))
     (excelFiles (cs_db (snd after_first_combine))) =
     [(''65f0000000000000000000a1'', ''sales.xlsx'', False, None),
      (''65f0000000000000000000c1'', ''combined-3.xlsx'', True, Some ''65f0000000000000000000a1'')] \<and>
   cs_locks (snd after_first_combine) = [] \<and>
   fileIds_of (recentFiles (cs_db (snd after_first_combine)) ''user_1'' ''s1'' 4) =
     ''65f0000000000000000000a1,65f0000000000000000000c1'' \<and>
   existingCombinedFile (cs_db (snd after_first_combine)) ''user_1'' ''s1''
     ''65f0000000000000000000a1,65f0000000000000000000c1'' = None \<and>
   status (fst after_second_combine) = 200 \<and>
   body (fst after_second_combine) = JObj [(js ''fileId'', JStr (js ''65f0000000000000000000c2''))] \<and>
   length (cs_api_calls (snd after_first_combine)) = 1 \<and>
   length (cs_api_calls (snd after_second_combine)) = 2 \<and>
   map (\<lambda>f. (doc_id f, doc_filename f, md_isCombined (doc_metadata f), md_sourceFileIds (doc_metadata f)))
     (excelFiles (cs_db (snd after_second_combine))) =
     [(''65f0000000000000000000a1'', ''sales.xlsx'', False, None),
      (''65f0000000000000000000c1'', ''combined-3.xlsx'', True, Some ''65f0000000000000000000a1''),
      (''65f0000000000000000000c2'', ''combined-5.xlsx'', True,
       Some ''65f0000000000000000000a1,65f0000000000000000000c1'')]"
proof -
  let ?c1 = "\<lparr>doc_id = ''65f0000000000000000000c1'', doc_filename = ''combined-3.xlsx'',
               doc_contentType = Some ''application/vnd.openxmlformats-officedocument.spreadsheetml.sheet'',
               doc_metadata = \<lparr>md_userId = ''user_1'', md_uploadedAt = 3, md_sessionId = ''s1'',
                                md_isCombined = True,
                                md_sourceFileIds = Some ''65f0000000000000000000a1'',
                                md_requestStartTime = Some 2\<rparr>,
               doc_bytes = [80, 75, 3, 4, 2]\<rparr>"
  have recent: "recentFiles (cs_db (snd after_first_combine)) ''user_1'' ''s1'' 4 = [?c1, sales_workbook]"
    by (simp add: first_combine_result recentFiles_def sales_workbook_def)
  have ids: "fileIds_of [?c1, sales_workbook] = ''65f0000000000000000000a1,65f0000000000000000000c1''"
    by (simp add: fileIds_of_def sales_workbook_def)
  have none: "existingCombinedFile (cs_db (snd after_first_combine)) ''user_1'' ''s1''
     ''65f0000000000000000000a1,65f0000000000000000000c1'' = None"
    by (simp add: first_combine_result existingCombinedFile_def sales_workbook_def)
  have prefs: "combine_preferences (cs_db (snd after_first_combine)) ''s1'' =
      \<lparr>combineData = False, joinType = [], customPrompt = []\<rparr>"
    by (simp add: first_combine_result combine_preferences_def)
  have read_sales: "read_dataset second_combine sales_workbook =
     Returns (''[File: sales.xlsx]'' @ [CHR 0x0A] @ ''Columns: sku, qty'' @ [CHR 0x0A] @
              ''Sample Rows:'' @ [CHR 0x0A] @ ''A7|2'' @ [CHR 0x0A])"
    by (simp add: read_dataset_def second_combine_def first_combine_def sales_workbook_def demo_xlsx_load_def
        ends_with_def to_lower_def dataset_text_def getRow_def cell_values_def upt_rec)
  have read_c1: "read_dataset second_combine ?c1 =
     Returns (''[File: combined-3.xlsx]'' @ [CHR 0x0A] @ ''Columns: n'' @ [CHR 0x0A] @
              ''Sample Rows:'' @ [CHR 0x0A] @ ''1'' @ [CHR 0x0A])"
    by (simp add: read_dataset_def second_combine_def first_combine_def demo_xlsx_load_def
        ends_with_def to_lower_def dataset_text_def getRow_def cell_values_def upt_rec)
  have env: "ce_MONGODB_URI second_combine = Some ''mongodb://db''" "ce_OPENROUTER_API_KEY second_combine = Some ''key''"
    "ce_auth second_combine = Some ''user_1''" "ce_db_up second_combine" "ce_requestStartTime second_combine = 4"
    "ce_storedAt second_combine = 5" "ce_new_id second_combine = ''65f0000000000000000000c2''"
    "ce_api second_combine = (\<lambda>p. ApiContent (js ''[{\"n\":1}]''))" "ce_parse second_combine = JSON_parse"
    "ce_writeBuffer second_combine = (\<lambda>rows. Returns [80, 75, 3, 4, length rows])" "ce_upload_ok second_combine"
    by (simp_all add: second_combine_def first_combine_def)
  have locks: "cs_locks (snd after_first_combine) = []" by (simp add: first_combine_result)
  have second: "after_second_combine =
     (\<lparr>status = 200, body = JObj [(js ''fileId'', JStr (js ''65f0000000000000000000c2''))]\<rparr>,
      (snd after_first_combine)
        \<lparr>cs_db := (cs_db (snd after_first_combine))
           \<lparr>excelFiles := excelFiles (cs_db (snd after_first_combine)) @
              [\<lparr>doc_id = ''65f0000000000000000000c2'', doc_filename = ''combined-5.xlsx'',
                doc_contentType = Some ''application/vnd.openxmlformats-officedocument.spreadsheetml.sheet'',
                doc_metadata = \<lparr>md_userId = ''user_1'', md_uploadedAt = 5, md_sessionId = ''s1'',
                                 md_isCombined = True,
                                 md_sourceFileIds = Some ''65f0000000000000000000a1,65f0000000000000000000c1'',
                                 md_requestStartTime = Some 4\<rparr>,
                doc_bytes = [80, 75, 3, 4, 2]\<rparr>]\<rparr>,
          cs_api_calls := cs_api_calls (snd after_first_combine) @
              [\<lparr>cp_datasets =
                  [''[File: combined-3.xlsx]'' @ [CHR 0x0A] @ ''Columns: n'' @ [CHR 0x0A] @
                     ''Sample Rows:'' @ [CHR 0x0A] @ ''1'' @ [CHR 0x0A],
                   ''[File: sales.xlsx]'' @ [CHR 0x0A] @ ''Columns: sku, qty'' @ [CHR 0x0A] @
                     ''Sample Rows:'' @ [CHR 0x0A] @ ''A7|2'' @ [CHR 0x0A]],
                cp_joinType = None, cp_customPrompt = None\<rparr>]\<rparr>)"
    unfolding after_second_combine_def combine_POST_def
    by (simp add: env locks recent ids none prefs read_sales read_c1 parseAIResponse_rows new_sheet_rows
        decimal.simps Let_def)
  show ?thesis
    unfolding second by (simp add: recent ids none) (simp add: first_combine_result sales_workbook_def)
qed

subsection \<open>The reply of the combine model\<close>

text \<open>Trimming, and the code fences.\<close>

lemma trim_parts:
  "\<exists>l r. s = l @ trim s @ r \<and> list_all is_space l \<and> list_all is_space r"
proof -
  let ?u = "dropWhile is_space s"
  have s: "s = takeWhile is_space s @ ?u" by simp
  have "rev ?u = takeWhile is_space (rev ?u) @ dropWhile is_space (rev ?u)" by simp
  then have "?u = rev (dropWhile is_space (rev ?u)) @ rev (takeWhile is_space (rev ?u))"
    by (metis rev_append rev_rev_ident)
  then have u: "?u = trim s @ rev (takeWhile is_space (rev ?u))" by (simp add: trim_def)
  have l: "list_all is_space (takeWhile is_space s)"
    by (simp add: list_all_iff) (meson set_takeWhileD)
  have r: "list_all is_space (rev (takeWhile is_space (rev ?u)))"
    by (simp add: list_all_iff) (meson set_takeWhileD)
  from s u have "s = takeWhile is_space s @ trim s @ rev (takeWhile is_space (rev ?u))" by metis
  with l r show ?thesis by blast
qed

lemma trim_ends:
  assumes "trim s \<noteq> []"
  shows "\<not> is_space (hd (trim s)) \<and> \<not> is_space (last (trim s))"
proof -
  let ?u = "dropWhile is_space s"
  let ?v = "dropWhile is_space (rev ?u)"
  have t: "trim s = rev ?v" by (simp add: trim_def)
  with assms have v: "?v \<noteq> []" by simp
  then have "\<not> is_space (hd ?v)" by (rule hd_dropWhile)
  then have last: "\<not> is_space (last (trim s))" using t v by (simp add: last_rev)
  have u: "?u \<noteq> []" using v by (metis dropWhile.simps(1) rev.simps(1))
  then have hu: "\<not> is_space (hd ?u)" by (rule hd_dropWhile)
  have "rev ?u = takeWhile is_space (rev ?u) @ ?v" by simp
  then have "?u = rev ?v @ rev (takeWhile is_space (rev ?u))" by (metis rev_append rev_rev_ident)
  then have "hd ?u = hd (rev ?v)" using v by (metis hd_append2 rev_is_Nil_conv)
  with hu t last show ?thesis by simp
qed

lemma no_fence_Cons: "\<not> has_fence (c # cs) \<Longrightarrow> \<not> has_fence cs"
  unfolding has_fence_def by (metis append_Cons)

lemma fence_at_head: "starts_with s [96, 96, 96] \<Longrightarrow> has_fence s"
proof -
  assume "starts_with s [96, 96, 96]"
  then have "take 3 s = [96, 96, 96]" by (simp add: starts_with_def numeral_3_eq_3)
  then have "s = [] @ [96, 96, 96] @ drop 3 s" by (metis append_Nil append_take_drop_id)
  then show ?thesis unfolding has_fence_def by blast
qed

lemma starts_with_longer: "starts_with s (p @ q) \<Longrightarrow> starts_with s p"
  by (auto simp: starts_with_def) (metis append_eq_conv_conj take_take min.absorb1 le_add1 length_append)

lemma remove_fences_none: "\<not> has_fence s \<Longrightarrow> remove_fences s = s"
proof (induction s)
  case Nil
  then show ?case by simp
next
  case (Cons c cs)
  from Cons.prems have a: "\<not> starts_with (c # cs) [96, 96, 96]" using fence_at_head by blast
  then have b: "\<not> starts_with (c # cs) [96, 96, 96, 106, 115, 111, 110]"
    using starts_with_longer [of "c # cs" "[96, 96, 96]" "[106, 115, 111, 110]"] by auto
  from Cons.prems have "\<not> has_fence cs" by (rule no_fence_Cons)
  with Cons.IH a b show ?case by simp
qed

lemma remove_fences_skip:
  "\<not> has_fence (a @ [96, 96]) \<Longrightarrow>
   remove_fences (a @ 96 # 96 # 96 # x) = a @ remove_fences (96 # 96 # 96 # x)"
proof (induction a)
  case Nil
  then show ?case by simp
next
  case (Cons c a)
  have "\<not> starts_with (c # a @ 96 # 96 # 96 # x) [96, 96, 96]"
  proof
    assume "starts_with (c # a @ 96 # 96 # 96 # x) [96, 96, 96]"
    then have "take 3 (((c # a) @ [96, 96]) @ 96 # x) = [96, 96, 96]"
      by (simp add: starts_with_def numeral_3_eq_3)
    moreover have "take 3 (((c # a) @ [96, 96]) @ 96 # x) = take 3 ((c # a) @ [96, 96])"
      by (subst take_append) simp
    ultimately have "take 3 ((c # a) @ [96, 96]) = [96, 96, 96]" by simp
    then have "starts_with ((c # a) @ [96, 96]) [96, 96, 96]"
      by (simp add: starts_with_def numeral_3_eq_3)
    with Cons.prems fence_at_head show False by blast
  qed
  then have a: "\<not> starts_with (c # a @ 96 # 96 # 96 # x) [96, 96, 96]"
    and b: "\<not> starts_with (c # a @ 96 # 96 # 96 # x) [96, 96, 96, 106, 115, 111, 110]"
    using starts_with_longer [of "c # a @ 96 # 96 # 96 # x" "[96, 96, 96]" "[106, 115, 111, 110]"]
    by auto
  from Cons.prems have "\<not> has_fence (a @ [96, 96])" using no_fence_Cons by auto
  with Cons.IH a b show ?case by simp
qed

lemma remove_fences_json:
  assumes "\<not> has_fence (a @ [96, 96])"
  shows "remove_fences (a @ [96, 96, 96, 106, 115, 111, 110] @ b) = a @ remove_fences b"
  using remove_fences_skip [OF assms, of "106 # 115 # 111 # 110 # b"]
  by (simp add: starts_with_def)

lemma remove_fences_bare:
  assumes "\<not> has_fence (a @ [96, 96])" and "\<not> starts_with b [106, 115, 111, 110]"
  shows "remove_fences (a @ [96, 96, 96] @ b) = a @ remove_fences b"
proof -
  have "\<not> starts_with (96 # 96 # 96 # b) [96, 96, 96, 106, 115, 111, 110]"
    using assms(2) by (simp add: starts_with_def)
  moreover have "starts_with (96 # 96 # 96 # b) [96, 96, 96]" by (simp add: starts_with_def)
  ultimately have "remove_fences (96 # 96 # 96 # b) = remove_fences b" by simp
  with remove_fences_skip [OF assms(1), of b] show ?thesis by simp
qed

text \<open>The first success of a list of attempts.\<close>

lemma first_success_Some:
  "first_success xs = Some v \<longleftrightarrow> (\<exists>i<length xs. xs ! i = Some v \<and> (\<forall>j<i. xs ! j = None))"
proof (induction xs rule: first_success.induct)
  case 1
  then show ?case by simp
next
  case (2 xs)
  show ?case
  proof
    assume "first_success (None # xs) = Some v"
    with 2 obtain i where "i < length xs" "xs ! i = Some v" "\<forall>j<i. xs ! j = None" by auto
    then have "Suc i < length (None # xs) \<and> (None # xs) ! Suc i = Some v \<and>
               (\<forall>j<Suc i. (None # xs) ! j = None)"
      by (auto simp: less_Suc_eq_0_disj)
    then show "\<exists>i<length (None # xs). (None # xs) ! i = Some v \<and> (\<forall>j<i. (None # xs) ! j = None)"
      by blast
  next
    assume "\<exists>i<length (None # xs). (None # xs) ! i = Some v \<and> (\<forall>j<i. (None # xs) ! j = None)"
    then obtain i where i: "i < length (None # xs)" "(None # xs) ! i = Some v"
      "\<forall>j<i. (None # xs) ! j = None" by blast
    then obtain i' where i': "i = Suc i'" by (cases i) auto
    with i have "i' < length xs" "xs ! i' = Some v" "\<forall>j<i'. xs ! j = None" by auto
    with 2 show "first_success (None # xs) = Some v" by auto
  qed
next
  case (3 w xs)
  show ?case
  proof
    assume "first_success (Some w # xs) = Some v"
    then have "0 < length (Some w # xs) \<and> (Some w # xs) ! 0 = Some v" by simp
    then show "\<exists>i<length (Some w # xs). (Some w # xs) ! i = Some v \<and> (\<forall>j<i. (Some w # xs) ! j = None)"
      by (intro exI [of _ 0]) simp
  next
    assume "\<exists>i<length (Some w # xs). (Some w # xs) ! i = Some v \<and> (\<forall>j<i. (Some w # xs) ! j = None)"
    then obtain i where i: "(Some w # xs) ! i = Some v" "\<forall>j<i. (Some w # xs) ! j = None" by blast
    then have "i = 0" by (cases i) auto
    with i show "first_success (Some w # xs) = Some v" by simp
  qed
qed

lemma first_parse_first_success:
  "first_parse parse as =
     first_success (map (\<lambda>a. case parse a of Returns v \<Rightarrow> Some v | Throws \<Rightarrow> None) as)"
  by (induction as) (auto split: outcome.splits)

lemma parsed_lines_concat:
  "parsed_lines parse ls =
     concat (map (\<lambda>l. case parse (drop_comma_before_brace l) of Returns v \<Rightarrow> [v] | Throws \<Rightarrow> []) ls)"
  by (induction ls) (auto split: outcome.splits)

lemma parsed_matches_concat:
  "parsed_matches parse ms = concat (map (\<lambda>m. case parse m of Returns v \<Rightarrow> [v] | Throws \<Rightarrow> []) ms)"
  by (induction ms) (auto split: outcome.splits)

text \<open>The array substring and its fixes.\<close>

lemma indexOf_None_iff: "indexOf c s = None \<longleftrightarrow> c \<notin> set s"
  by (induction s) auto

lemma indexOf_first_at: "indexOf c s = Some i \<longleftrightarrow> first_at c s i"
proof (induction s arbitrary: i)
  case Nil
  then show ?case by (simp add: first_at_def)
next
  case (Cons x xs)
  show ?case
  proof (cases "x = c")
    case True
    then show ?thesis by (cases i) (auto simp: first_at_def)
  next
    case False
    show ?thesis
    proof (cases i)
      case 0
      with False show ?thesis by (auto simp: first_at_def)
    next
      case (Suc j)
      with False Cons.IH [of j] show ?thesis by (auto simp: first_at_def)
    qed
  qed
qed

lemma lastIndexOf_None_iff: "lastIndexOf c s = None \<longleftrightarrow> c \<notin> set s"
  by (simp add: lastIndexOf_def indexOf_None_iff)

lemma last_at_rev:
  assumes "i < length s"
  shows "last_at c s i \<longleftrightarrow> first_at c (rev s) (length s - 1 - i)"
proof -
  have n: "rev s ! (length s - 1 - i) = s ! i" using assms by (simp add: rev_nth)
  have "take (length s - 1 - i) (rev s) = rev (drop (Suc i) s)"
    using assms by (simp add: take_rev)
  then have t: "set (take (length s - 1 - i) (rev s)) = set (drop (Suc i) s)" by simp
  show ?thesis unfolding last_at_def first_at_def n t using assms by auto
qed

lemma lastIndexOf_last_at: "lastIndexOf c s = Some i \<longleftrightarrow> last_at c s i"
proof
  assume "lastIndexOf c s = Some i"
  then obtain j where j: "indexOf c (rev s) = Some j" "i = length s - 1 - j"
    by (auto simp: lastIndexOf_def)
  then have f: "first_at c (rev s) j" by (simp add: indexOf_first_at)
  then have "j < length s" by (simp add: first_at_def)
  with j have "i < length s" "length s - 1 - i = j" by simp_all
  with f show "last_at c s i" by (simp add: last_at_rev)
next
  assume l: "last_at c s i"
  then have i: "i < length s" by (simp add: last_at_def)
  with l have "first_at c (rev s) (length s - 1 - i)" by (simp add: last_at_rev)
  then have "indexOf c (rev s) = Some (length s - 1 - i)" by (simp add: indexOf_first_at)
  with i show "lastIndexOf c s = Some i" by (simp add: lastIndexOf_def)
qed

lemma array_candidate_whole: "91 \<notin> set c \<Longrightarrow> array_candidate c = c"
  by (simp add: array_candidate_def indexOf_None_iff [symmetric])

lemma array_candidate_between:
  assumes "first_at 91 c a" and "last_at 93 c b" and "a < b"
  shows "array_candidate c = take (b + 1 - a) (drop a c)"
  using assms
  by (simp add: array_candidate_def indexOf_first_at [symmetric] lastIndexOf_last_at [symmetric] substring_def)

lemma array_candidate_open:
  assumes "first_at 91 c a" and "\<forall>b. last_at 93 c b \<longrightarrow> b < a"
  shows "array_candidate c = drop a c"
proof (cases "lastIndexOf 93 c")
  case None
  with assms(1) show ?thesis by (simp add: array_candidate_def indexOf_first_at [symmetric])
next
  case (Some b)
  then have "b < a" using assms(2) by (simp add: lastIndexOf_last_at)
  with Some assms(1) show ?thesis by (simp add: array_candidate_def indexOf_first_at [symmetric])
qed

lemma trim_end_parts: "\<exists>w. s = trim_end s @ w \<and> list_all is_space w"
proof -
  have "rev s = takeWhile is_space (rev s) @ dropWhile is_space (rev s)" by simp
  then have "s = rev (dropWhile is_space (rev s)) @ rev (takeWhile is_space (rev s))"
    by (metis rev_append rev_rev_ident)
  moreover have "list_all is_space (rev (takeWhile is_space (rev s)))"
    by (simp add: list_all_iff) (meson set_takeWhileD)
  ultimately show ?thesis unfolding trim_end_def by blast
qed

lemma trim_end_final:
  assumes "list_all is_space w" and "\<not> is_space c"
  shows "trim_end (p @ [c] @ w) = p @ [c]"
proof -
  have "dropWhile is_space (rev w @ c # rev p) = c # rev p"
    using assms by (simp add: dropWhile_append3 list_all_iff)
  then show ?thesis by (simp add: trim_end_def)
qed

lemma drop_final_found:
  assumes "\<not> is_space c" and "list_all is_space w"
  shows "drop_final c (p @ [c] @ w) = p"
  using trim_end_final [OF assms(2,1), of p] by (simp add: drop_final_def)

lemma drop_final_none:
  assumes "\<forall>p w. list_all is_space w \<longrightarrow> s \<noteq> p @ [c] @ w"
  shows "drop_final c s = s"
proof (rule ccontr)
  assume "drop_final c s \<noteq> s"
  then have t: "trim_end s \<noteq> []" "last (trim_end s) = c"
    by (auto simp: drop_final_def Let_def split: if_splits)
  from trim_end_parts obtain w where w: "s = trim_end s @ w" "list_all is_space w" by blast
  from t have "trim_end s = butlast (trim_end s) @ [c]" by (metis append_butlast_last_id)
  with w have "s = butlast (trim_end s) @ [c] @ w" by (metis append.assoc)
  with w(2) assms show False by blast
qed

lemma not_space: "\<not> is_space 44" "\<not> is_space 93" "\<not> is_space 125" "\<not> is_space 91" "\<not> is_space 123"
  by (simp_all add: is_space_def)

lemma close_final_brace_found:
  assumes "list_all is_space w"
  shows "close_final_brace (p @ [125] @ w) = p @ [125, 93]"
  using trim_end_final [OF assms, of 125 p] by (simp add: close_final_brace_def not_space)

lemma close_final_brace_none:
  assumes "\<forall>p w. list_all is_space w \<longrightarrow> s \<noteq> p @ [125] @ w"
  shows "close_final_brace s = s"
proof (rule ccontr)
  assume "close_final_brace s \<noteq> s"
  then have t: "trim_end s \<noteq> []" "last (trim_end s) = 125"
    by (auto simp: close_final_brace_def Let_def split: if_splits)
  from trim_end_parts obtain w where w: "s = trim_end s @ w" "list_all is_space w" by blast
  from t have "trim_end s = butlast (trim_end s) @ [125]" by (metis append_butlast_last_id)
  with w have "s = butlast (trim_end s) @ [125] @ w" by (metis append.assoc)
  with w(2) assms show False by blast
qed

lemma drop_comma_found:
  assumes "list_all is_space w"
  shows "drop_comma_before_brace (p @ [44] @ w @ [125]) = p @ [125]"
proof -
  have b: "butlast (p @ [44] @ w @ [125]) = p @ [44] @ w" by (simp add: butlast_append)
  have "trim_end (p @ [44] @ w) = p @ [44]" using assms by (intro trim_end_final) (simp_all add: not_space)
  with b show ?thesis by (simp add: drop_comma_before_brace_def)
qed

lemma drop_comma_none:
  assumes "\<forall>p w. list_all is_space w \<longrightarrow> l \<noteq> p @ [44] @ w @ [125]"
  shows "drop_comma_before_brace l = l"
proof (rule ccontr)
  assume "drop_comma_before_brace l \<noteq> l"
  then have t: "l \<noteq> []" "last l = 125" "trim_end (butlast l) \<noteq> []" "last (trim_end (butlast l)) = 44"
    by (auto simp: drop_comma_before_brace_def split: if_splits)
  from trim_end_parts obtain w where w: "butlast l = trim_end (butlast l) @ w" "list_all is_space w"
    by blast
  from t have "trim_end (butlast l) = butlast (trim_end (butlast l)) @ [44]"
    by (metis append_butlast_last_id)
  with w have "butlast l = butlast (trim_end (butlast l)) @ [44] @ w" by (metis append.assoc)
  moreover from t have "l = butlast l @ [125]" by (metis append_butlast_last_id)
  ultimately have "l = butlast (trim_end (butlast l)) @ [44] @ w @ [125]" by (metis append.assoc)
  with w(2) assms show False by blast
qed

text \<open>The lines, the joint of two arrays and the comma before a closing brace.\<close>

lemma split_lines_joined:
  "concat (map ((#) 10) (split_lines acc s)) = 10 # acc @ s"
  by (induction acc s rule: split_lines.induct) auto

lemma split_lines_no_newline:
  "10 \<notin> set acc \<Longrightarrow> \<forall>l\<in>set (split_lines acc s). 10 \<notin> set l"
  by (induction acc s rule: split_lines.induct) auto

lemma no_seam_Cons: "\<not> has_seam (c # cs) \<Longrightarrow> \<not> has_seam cs"
  unfolding has_seam_def by (metis append_Cons)

lemma seam_at_head:
  assumes "dropWhile is_space cs \<noteq> []" and "hd (dropWhile is_space cs) = 91"
  shows "has_seam (93 # cs)"
proof -
  have "cs = takeWhile is_space cs @ dropWhile is_space cs" by simp
  also have "dropWhile is_space cs = 91 # tl (dropWhile is_space cs)"
    using assms by (metis list.collapse)
  finally have "93 # cs = [] @ [93] @ takeWhile is_space cs @ [91] @ tl (dropWhile is_space cs)"
    by simp
  moreover have "list_all is_space (takeWhile is_space cs)"
    by (simp add: list_all_iff) (meson set_takeWhileD)
  ultimately show ?thesis unfolding has_seam_def by blast
qed

lemma join_arrays_none: "\<not> has_seam s \<Longrightarrow> join_arrays s = s"
proof (induction s)
  case Nil
  then show ?case by simp
next
  case (Cons c cs)
  have "\<not> (c = 93 \<and> dropWhile is_space cs \<noteq> [] \<and> hd (dropWhile is_space cs) = 91)"
    using Cons.prems seam_at_head by blast
  moreover from Cons.prems have "\<not> has_seam cs" by (rule no_seam_Cons)
  ultimately show ?case using Cons.IH by simp
qed

lemma dropWhile_spaces:
  assumes "list_all is_space w" and "\<not> is_space c"
  shows "dropWhile is_space (w @ c # b) = c # b"
  using assms by (simp add: dropWhile_append3 list_all_iff)

lemma join_arrays_seam:
  assumes "\<not> has_seam a" and "list_all is_space w"
  shows "join_arrays (a @ [93] @ w @ [91] @ b) = a @ [44] @ join_arrays b"
  using assms(1)
proof (induction a)
  case Nil
  have "dropWhile is_space (w @ 91 # b) = 91 # b"
    using assms(2) by (intro dropWhile_spaces) (simp_all add: not_space)
  then show ?case by simp
next
  case (Cons c a)
  let ?rest = "a @ [93] @ w @ [91] @ b"
  have "\<not> (c = 93 \<and> dropWhile is_space ?rest \<noteq> [] \<and> hd (dropWhile is_space ?rest) = 91)"
  proof
    assume h: "c = 93 \<and> dropWhile is_space ?rest \<noteq> [] \<and> hd (dropWhile is_space ?rest) = 91"
    show False
    proof (cases "list_all is_space a")
      case True
      then have "dropWhile is_space ?rest = 93 # w @ [91] @ b"
        using dropWhile_spaces [of a 93 "w @ [91] @ b"] by (simp add: not_space)
      with h show False by simp
    next
      case False
      then have ne: "dropWhile is_space a \<noteq> []" by (simp add: list_all_iff)
      then have "dropWhile is_space ?rest = dropWhile is_space a @ [93] @ w @ [91] @ b"
        by (metis (no_types) dropWhile_append1 dropWhile_eq_Nil_conv)
      with h ne have "hd (dropWhile is_space a) = 91" by simp
      with ne have "has_seam (93 # a)" by (rule seam_at_head)
      with h Cons.prems show False by simp
    qed
  qed
  moreover from Cons.prems have "\<not> has_seam a" by (rule no_seam_Cons)
  ultimately show ?case using Cons.IH by simp
qed

text \<open>The matches of the object expression.\<close>

lemma at_object_boundary_iff:
  "at_object_boundary r \<longleftrightarrow> (\<exists>w r'. r = w @ r' \<and> list_all is_space w \<and> (r' = [] \<or> hd r' = 123))"
proof
  assume b: "at_object_boundary r"
  have "r = takeWhile is_space r @ dropWhile is_space r" by simp
  moreover have "list_all is_space (takeWhile is_space r)"
    by (simp add: list_all_iff) (meson set_takeWhileD)
  moreover from b have "dropWhile is_space r = [] \<or> hd (dropWhile is_space r) = 123"
    by (auto simp: at_object_boundary_def split: list.splits)
  ultimately show "\<exists>w r'. r = w @ r' \<and> list_all is_space w \<and> (r' = [] \<or> hd r' = 123)" by blast
next
  assume "\<exists>w r'. r = w @ r' \<and> list_all is_space w \<and> (r' = [] \<or> hd r' = 123)"
  then obtain w r' where r: "r = w @ r'" "list_all is_space w" "r' = [] \<or> hd r' = 123" by blast
  show "at_object_boundary r"
  proof (cases r')
    case Nil
    with r have d: "dropWhile is_space r = []" by (simp add: list_all_iff)
    show ?thesis unfolding at_object_boundary_def d by simp
  next
    case (Cons d ds)
    with r(3) have "d = 123" by simp
    with r Cons have d: "dropWhile is_space r = 123 # ds" using dropWhile_spaces [of w 123 ds] by (simp add: not_space)
    show ?thesis unfolding at_object_boundary_def d by simp
  qed
qed

lemma object_end_found:
  assumes "at_object_boundary r"
    and "\<forall>k<length m. m ! k = 125 \<longrightarrow> \<not> at_object_boundary (drop (Suc k) m @ [125] @ r)"
  shows "object_end (m @ [125] @ r) = Some (Suc (length m))"
  using assms(2)
proof (induction m)
  case Nil
  with assms(1) show ?case by simp
next
  case (Cons c m)
  from Cons.prems have "c = 125 \<longrightarrow> \<not> at_object_boundary (m @ [125] @ r)" by auto
  moreover from Cons.prems have
    "\<forall>k<length m. m ! k = 125 \<longrightarrow> \<not> at_object_boundary (drop (Suc k) m @ [125] @ r)"
    by auto
  ultimately show ?case using Cons.IH by simp
qed

lemma object_end_Some:
  "object_end cs = Some n \<Longrightarrow> \<exists>m r. cs = m @ [125] @ r \<and> at_object_boundary r \<and> n = Suc (length m)"
proof (induction cs arbitrary: n)
  case Nil
  then show ?case by simp
next
  case (Cons c cs)
  show ?case
  proof (cases "c = 125 \<and> at_object_boundary cs")
    case True
    with Cons.prems have "n = 1" by simp
    with True have "c # cs = [] @ [125] @ cs \<and> at_object_boundary cs \<and> n = Suc (length ([]::nat list))"
      by simp
    then show ?thesis by blast
  next
    case False
    with Cons.prems obtain n' where n': "object_end cs = Some n'" "n = Suc n'" by auto
    from Cons.IH [OF n'(1)] obtain m r where
      "cs = m @ [125] @ r" "at_object_boundary r" "n' = Suc (length m)" by blast
    with n' have "c # cs = (c # m) @ [125] @ r \<and> at_object_boundary r \<and> n = Suc (length (c # m))"
      by simp
    then show ?thesis by blast
  qed
qed

lemma object_matches_found:
  assumes "123 \<notin> set p" and "at_object_boundary r"
    and "\<forall>k<length m. m ! k = 125 \<longrightarrow> \<not> at_object_boundary (drop (Suc k) m @ [125] @ r)"
  shows "object_matches (p @ [123] @ m @ [125] @ r) = (123 # m @ [125]) # object_matches r"
  using assms(1)
proof (induction p)
  case Nil
  from object_end_found [OF assms(2,3)] show ?case by simp
next
  case (Cons c p)
  then show ?case by simp
qed

lemma object_matches_none:
  assumes "\<forall>p m r. s = p @ [123] @ m @ [125] @ r \<longrightarrow> \<not> at_object_boundary r"
  shows "object_matches s = []"
  using assms
proof (induction s)
  case Nil
  then show ?case by simp
next
  case (Cons c cs)
  have rest: "\<forall>p m r. cs = p @ [123] @ m @ [125] @ r \<longrightarrow> \<not> at_object_boundary r"
  proof (intro allI impI)
    fix p m r assume "cs = p @ [123] @ m @ [125] @ r"
    then have "c # cs = (c # p) @ [123] @ m @ [125] @ r" by simp
    with Cons.prems show "\<not> at_object_boundary r" by blast
  qed
  have "c = 123 \<Longrightarrow> object_end cs = None"
  proof (rule ccontr)
    assume c: "c = 123" and "object_end cs \<noteq> None"
    then obtain n where "object_end cs = Some n" by auto
    from object_end_Some [OF this] obtain m r where "cs = m @ [125] @ r" "at_object_boundary r" by blast
    with c have "c # cs = [] @ [123] @ m @ [125] @ r" by simp
    with Cons.prems \<open>at_object_boundary r\<close> show False by blast
  qed
  with Cons.IH [OF rest] show ?case by auto
qed

text \<open>The fallbacks of the claim are the attempts of the function.\<close>

lemma parsed_value_fun:
  "parsed_value parse = (\<lambda>a. case parse a of Returns v \<Rightarrow> Some v | Throws \<Rightarrow> None)"
  by (rule ext) (simp add: parsed_value_def)

lemma array_fallback_code:
  "array_fallback parse clean = first_parse parse (array_attempts (array_candidate clean))"
  by (simp add: array_fallback_def array_attempts_def first_parse_first_success parsed_value_fun Let_def)

lemma starts_with_unit: "l \<noteq> [] \<Longrightarrow> starts_with l [c] \<longleftrightarrow> hd l = c"
  by (cases l) (simp_all add: starts_with_def)

lemma json_lines_filter:
  "json_lines clean =
     filter (\<lambda>l. l \<noteq> [] \<and> (hd l = 123 \<or> hd l = 91)) (map trim (split_lines [] clean))"
  unfolding json_lines_def by (rule filter_cong) (auto simp: starts_with_unit)

lemma json_lines_nonempty: "l \<in> set (json_lines clean) \<Longrightarrow> l \<noteq> []"
  by (simp add: json_lines_def)

lemma ndjson_fallback_code:
  "ndjson_fallback parse clean =
     (if json_lines clean = [] then None
      else if starts_with (hd (json_lines clean)) [91] then
        (case parse (join_arrays (concat (json_lines clean))) of Returns v \<Rightarrow> Some v | Throws \<Rightarrow> None)
      else if parsed_lines parse (json_lines clean) \<noteq> [] then
        Some (JArr (parsed_lines parse (json_lines clean)))
      else None)"
proof (cases "json_lines clean = []")
  case True
  then show ?thesis by (simp add: ndjson_fallback_def json_lines_filter [symmetric])
next
  case False
  then have "hd (json_lines clean) \<noteq> []" using json_lines_nonempty by (metis hd_in_set)
  then have first: "starts_with (hd (json_lines clean)) [91] \<longleftrightarrow> hd (hd (json_lines clean)) = 91"
    by (rule starts_with_unit)
  have objects: "those_parsed parse (map drop_comma_before_brace (json_lines clean)) =
      parsed_lines parse (json_lines clean)"
    by (simp add: those_parsed_def parsed_lines_concat comp_def)
  show ?thesis
    using False first objects
    by (simp add: ndjson_fallback_def json_lines_filter [symmetric] parsed_value_def Let_def
        split: list.splits)
qed

lemma objects_fallback_code:
  "objects_fallback parse clean =
     (if parsed_matches parse (object_matches clean) \<noteq> []
      then Some (JArr (parsed_matches parse (object_matches clean))) else None)"
proof -
  have those: "those_parsed parse (object_matches clean) = parsed_matches parse (object_matches clean)"
    by (simp add: those_parsed_def parsed_matches_concat)
  show ?thesis
    unfolding objects_fallback_def those
    by (cases "parsed_matches parse (object_matches clean)") simp_all
qed

lemma wrap_fallback_code:
  "wrap_fallback parse clean = (case parse clean of Returns v \<Rightarrow> Some (JArr [v]) | Throws \<Rightarrow> None)"
  by (simp add: wrap_fallback_def parsed_value_def split: outcome.splits)

lemma parseAIResponse_not_string: "\<forall>t. response \<noteq> JStr t \<Longrightarrow> parseAIResponse parse response = Throws"
  by (cases response) (simp_all add: parseAIResponse_def)

lemma parseAIResponse_valid:
  "parse (cleanResponse t) = Returns v \<Longrightarrow> parseAIResponse parse (JStr t) = Returns v"
  by (simp add: parseAIResponse_def)

lemma parseAIResponse_fallbacks:
  assumes "parse (cleanResponse t) = Throws"
  shows "parseAIResponse parse (JStr t) =
           (case first_success (fallbacks parse (cleanResponse t)) of
              Some v \<Rightarrow> Returns v
            | None \<Rightarrow> Throws)"
proof (cases "array_fallback parse (cleanResponse t)")
  case (Some v)
  then show ?thesis using assms by (simp add: parseAIResponse_def fallbacks_def array_fallback_code)
next
  case a: None
  show ?thesis
  proof (cases "ndjson_fallback parse (cleanResponse t)")
    case (Some v)
    then show ?thesis
      using assms a
      by (auto simp: parseAIResponse_def fallbacks_def array_fallback_code ndjson_fallback_code Let_def
          split: if_splits outcome.splits)
  next
    case n: None
    show ?thesis
    proof (cases "objects_fallback parse (cleanResponse t)")
      case (Some v)
      then show ?thesis
        using assms a n
        by (auto simp: parseAIResponse_def fallbacks_def array_fallback_code ndjson_fallback_code
            objects_fallback_code Let_def split: if_splits outcome.splits)
    next
      case None
      then show ?thesis
        using assms a n
        by (auto simp: parseAIResponse_def fallbacks_def array_fallback_code ndjson_fallback_code
            objects_fallback_code wrap_fallback_code Let_def split: if_splits outcome.splits)
    qed
  qed
qed

lemma first_success_None: "first_success xs = None \<longleftrightarrow> (\<forall>x\<in>set xs. x = None)"
  by (induction xs rule: first_success.induct) auto

lemma parseAIResponse_order:
  "((\<forall>u. response \<noteq> JStr u) \<longrightarrow> parseAIResponse parse response = Throws) \<and>
   (parse (cleanResponse t) = Returns v \<longrightarrow> parseAIResponse parse (JStr t) = Returns v) \<and>
   (parse (cleanResponse t) = Throws \<longrightarrow>
      parseAIResponse parse (JStr t) =
        (case first_success (fallbacks parse (cleanResponse t)) of
           Some v \<Rightarrow> Returns v
         | None \<Rightarrow> Throws)) \<and>
   (parseAIResponse parse (JStr t) = Throws \<longleftrightarrow>
      parse (cleanResponse t) = Throws \<and> (\<forall>f\<in>set (fallbacks parse (cleanResponse t)). f = None)) \<and>
   (parse (cleanResponse t) = Throws \<longrightarrow> wrap_fallback parse (cleanResponse t) = None) \<and>
   (\<forall>xs (w :: json). first_success xs = Some w \<longleftrightarrow>
      (\<exists>i<length xs. xs ! i = Some w \<and> (\<forall>j<i. xs ! j = None)))"
proof (intro conjI)
  show "(\<forall>u. response \<noteq> JStr u) \<longrightarrow> parseAIResponse parse response = Throws"
    using parseAIResponse_not_string by blast
  show "parse (cleanResponse t) = Returns v \<longrightarrow> parseAIResponse parse (JStr t) = Returns v"
    using parseAIResponse_valid by blast
  show "parse (cleanResponse t) = Throws \<longrightarrow>
      parseAIResponse parse (JStr t) =
        (case first_success (fallbacks parse (cleanResponse t)) of
           Some v \<Rightarrow> Returns v
         | None \<Rightarrow> Throws)"
    using parseAIResponse_fallbacks by blast
  show "parseAIResponse parse (JStr t) = Throws \<longleftrightarrow>
      parse (cleanResponse t) = Throws \<and> (\<forall>f\<in>set (fallbacks parse (cleanResponse t)). f = None)"
  proof (cases "parse (cleanResponse t)")
    case (Returns w)
    then show ?thesis by (simp add: parseAIResponse_valid)
  next
    case Throws
    then show ?thesis
      using parseAIResponse_fallbacks [of parse t] first_success_None [of "fallbacks parse (cleanResponse t)"]
      by (cases "first_success (fallbacks parse (cleanResponse t))") auto
  qed
  show "parse (cleanResponse t) = Throws \<longrightarrow> wrap_fallback parse (cleanResponse t) = None"
    by (simp add: wrap_fallback_code)
  show "\<forall>xs (w :: json). first_success xs = Some w \<longleftrightarrow>
      (\<exists>i<length xs. xs ! i = Some w \<and> (\<forall>j<i. xs ! j = None))"
    using first_success_Some by blast
qed

lemma cleaning_described:
  "cleanResponse t = trim (remove_fences t) \<and>
   (\<forall>s. \<not> has_fence s \<longrightarrow> remove_fences s = s) \<and>
   (\<forall>a b. \<not> has_fence (a @ [96, 96]) \<longrightarrow>
      remove_fences (a @ [96, 96, 96] @ js ''json'' @ b) = a @ remove_fences b) \<and>
   (\<forall>a b. \<not> has_fence (a @ [96, 96]) \<and> \<not> starts_with b (js ''json'') \<longrightarrow>
      remove_fences (a @ [96, 96, 96] @ b) = a @ remove_fences b) \<and>
   (\<forall>s. \<exists>l r. s = l @ trim s @ r \<and> list_all is_space l \<and> list_all is_space r) \<and>
   (\<forall>s. trim s \<noteq> [] \<longrightarrow> \<not> is_space (hd (trim s)) \<and> \<not> is_space (last (trim s)))"
proof -
  have json: "js ''json'' = [106, 115, 111, 110]" by (simp add: js_def)
  show ?thesis
    unfolding json
    using remove_fences_none remove_fences_json remove_fences_bare trim_parts trim_ends
    by (simp add: cleanResponse_def)
qed

lemma array_substring_described:
  "(\<forall>c. 91 \<notin> set c \<longrightarrow> array_candidate c = c) \<and>
   (\<forall>c a b. first_at 91 c a \<and> last_at 93 c b \<and> a < b \<longrightarrow>
      array_candidate c = take (b + 1 - a) (drop a c)) \<and>
   (\<forall>c a. first_at 91 c a \<and> (\<forall>b. last_at 93 c b \<longrightarrow> b < a) \<longrightarrow> array_candidate c = drop a c) \<and>
   (\<forall>c p w. \<not> is_space c \<and> list_all is_space w \<longrightarrow> drop_final c (p @ [c] @ w) = p) \<and>
   (\<forall>c s. (\<forall>p w. list_all is_space w \<longrightarrow> s \<noteq> p @ [c] @ w) \<longrightarrow> drop_final c s = s) \<and>
   (\<forall>p w. list_all is_space w \<longrightarrow> close_final_brace (p @ [125] @ w) = p @ [125, 93]) \<and>
   (\<forall>s. (\<forall>p w. list_all is_space w \<longrightarrow> s \<noteq> p @ [125] @ w) \<longrightarrow> close_final_brace s = s)"
  using array_candidate_whole array_candidate_between array_candidate_open drop_final_found
    drop_final_none close_final_brace_found close_final_brace_none
  by (intro conjI allI impI) (blast+)

lemma lines_described:
  "(\<forall>s. (\<forall>l\<in>set (split_lines [] s). 10 \<notin> set l) \<and> concat (map ((#) 10) (split_lines [] s)) = 10 # s) \<and>
   (\<forall>s. \<not> has_seam s \<longrightarrow> join_arrays s = s) \<and>
   (\<forall>a w b. \<not> has_seam a \<and> list_all is_space w \<longrightarrow>
      join_arrays (a @ [93] @ w @ [91] @ b) = a @ [44] @ join_arrays b) \<and>
   (\<forall>p w. list_all is_space w \<longrightarrow> drop_comma_before_brace (p @ [44] @ w @ [125]) = p @ [125]) \<and>
   (\<forall>l. (\<forall>p w. list_all is_space w \<longrightarrow> l \<noteq> p @ [44] @ w @ [125]) \<longrightarrow> drop_comma_before_brace l = l)"
proof (intro conjI allI impI)
  fix s :: jsstring
  show "\<forall>l\<in>set (split_lines [] s). 10 \<notin> set l" by (rule split_lines_no_newline) simp
  show "concat (map ((#) 10) (split_lines [] s)) = 10 # s" using split_lines_joined [of "[]" s] by simp
  show "\<not> has_seam s \<Longrightarrow> join_arrays s = s" by (rule join_arrays_none)
next
  fix a w b :: jsstring
  assume "\<not> has_seam a \<and> list_all is_space w"
  then show "join_arrays (a @ [93] @ w @ [91] @ b) = a @ [44] @ join_arrays b"
    using join_arrays_seam by blast
next
  fix p w :: jsstring
  show "list_all is_space w \<Longrightarrow> drop_comma_before_brace (p @ [44] @ w @ [125]) = p @ [125]"
    by (rule drop_comma_found)
next
  fix l :: jsstring
  show "\<forall>p w. list_all is_space w \<longrightarrow> l \<noteq> p @ [44] @ w @ [125] \<Longrightarrow> drop_comma_before_brace l = l"
    by (rule drop_comma_none)
qed

lemma object_matches_described:
  "(\<forall>r. at_object_boundary r \<longleftrightarrow>
      (\<exists>w r'. r = w @ r' \<and> list_all is_space w \<and> (r' = [] \<or> hd r' = 123))) \<and>
   (\<forall>p m r. 123 \<notin> set p \<and> at_object_boundary r \<and>
      (\<forall>k<length m. m ! k = 125 \<longrightarrow> \<not> at_object_boundary (drop (Suc k) m @ [125] @ r)) \<longrightarrow>
      object_matches (p @ [123] @ m @ [125] @ r) = (123 # m @ [125]) # object_matches r) \<and>
   (\<forall>s. (\<forall>p m r. s = p @ [123] @ m @ [125] @ r \<longrightarrow> \<not> at_object_boundary r) \<longrightarrow>
      object_matches s = [])"
  using at_object_boundary_iff object_matches_found object_matches_none
  by (intro conjI allI impI) (blast+)

text \<open>
  C3: \<open>parseAIResponse\<close> throws on an input that is not a string; when the cleaned
  text is valid JSON it returns the parse of that text; otherwise it returns the first
  success of its fallbacks in their order (array substring with fixes, lines, object
  matches, single object wrapped) and throws exactly when every fallback fails; the
  last fallback parses the cleaned text once more, so it never succeeds.

  Cleaning: a text without a code fence stays as it is; the text before the first
  fence is kept, the fence goes, together with \<open>json\<close> when that follows it, and the
  rest is cleaned in the same way; then the white space at both ends goes.

  The array substring runs from the first \<open>[\<close> to the last \<open>]\<close> after it, to the end
  of the text when there is no such \<open>]\<close>, and is the whole text when there is no
  \<open>[\<close>; a final comma or bracket is one followed by white space only.

  The lines are the text between the line feeds; a \<open>]\<close> and a \<open>[\<close> that only white
  space separates become a comma; a comma that only white space separates from the
  final \<open>}\<close> of a line goes.

  An object match runs from the first \<open>{\<close> to the first \<open>}\<close> after which only white
  space precedes a \<open>{\<close> or the end of the text, and the search goes on behind it.
\<close>

theorem parseAIResponse_returns_first_success:
  "(((\<forall>u. response \<noteq> JStr u) \<longrightarrow> parseAIResponse parse response = Throws) \<and>
    (parse (cleanResponse t) = Returns v \<longrightarrow> parseAIResponse parse (JStr t) = Returns v) \<and>
    (parse (cleanResponse t) = Throws \<longrightarrow>
       parseAIResponse parse (JStr t) =
         (case first_success (fallbacks parse (cleanResponse t)) of
            Some v \<Rightarrow> Returns v
          | None \<Rightarrow> Throws)) \<and>
    (parseAIResponse parse (JStr t) = Throws \<longleftrightarrow>
       parse (cleanResponse t) = Throws \<and> (\<forall>f\<in>set (fallbacks parse (cleanResponse t)). f = None)) \<and>
    (parse (cleanResponse t) = Throws \<longrightarrow> wrap_fallback parse (cleanResponse t) = None) \<and>
    (\<forall>xs (w :: json). first_success xs = Some w \<longleftrightarrow>
       (\<exists>i<length xs. xs ! i = Some w \<and> (\<forall>j<i. xs ! j = None)))) \<and>
   (cleanResponse t = trim (remove_fences t) \<and>
    (\<forall>s. \<not> has_fence s \<longrightarrow> remove_fences s = s) \<and>
    (\<forall>a b. \<not> has_fence (a @ [96, 96]) \<longrightarrow>
       remove_fences (a @ [96, 96, 96] @ js ''json'' @ b) = a @ remove_fences b) \<and>
    (\<forall>a b. \<not> has_fence (a @ [96, 96]) \<and> \<not> starts_with b (js ''json'') \<longrightarrow>
       remove_fences (a @ [96, 96, 96] @ b) = a @ remove_fences b) \<and>
    (\<forall>s. \<exists>l r. s = l @ trim s @ r \<and> list_all is_space l \<and> list_all is_space r) \<and>
    (\<forall>s. trim s \<noteq> [] \<longrightarrow> \<not> is_space (hd (trim s)) \<and> \<not> is_space (last (trim s)))) \<and>
   ((\<forall>c. 91 \<notin> set c \<longrightarrow> array_candidate c = c) \<and>
    (\<forall>c a b. first_at 91 c a \<and> last_at 93 c b \<and> a < b \<longrightarrow>
       array_candidate c = take (b + 1 - a) (drop a c)) \<and>
    (\<forall>c a. first_at 91 c a \<and> (\<forall>b. last_at 93 c b \<longrightarrow> b < a) \<longrightarrow> array_candidate c = drop a c) \<and>
    (\<forall>c p w. \<not> is_space c \<and> list_all is_space w \<longrightarrow> drop_final c (p @ [c] @ w) = p) \<and>
    (\<forall>c s. (\<forall>p w. list_all is_space w \<longrightarrow> s \<noteq> p @ [c] @ w) \<longrightarrow> drop_final c s = s) \<and>
    (\<forall>p w. list_all is_space w \<longrightarrow> close_final_brace (p @ [125] @ w) = p @ [125, 93]) \<and>
    (\<forall>s. (\<forall>p w. list_all is_space w \<longrightarrow> s \<noteq> p @ [125] @ w) \<longrightarrow> close_final_brace s = s)) \<and>
   ((\<forall>s. (\<forall>l\<in>set (split_lines [] s). 10 \<notin> set l) \<and> concat (map ((#) 10) (split_lines [] s)) = 10 # s) \<and>
    (\<forall>s. \<not> has_seam s \<longrightarrow> join_arrays s = s) \<and>
    (\<forall>a w b. \<not> has_seam a \<and> list_all is_space w \<longrightarrow>
       join_arrays (a @ [93] @ w @ [91] @ b) = a @ [44] @ join_arrays b) \<and>
    (\<forall>p w. list_all is_space w \<longrightarrow> drop_comma_before_brace (p @ [44] @ w @ [125]) = p @ [125]) \<and>
    (\<forall>l. (\<forall>p w. list_all is_space w \<longrightarrow> l \<noteq> p @ [44] @ w @ [125]) \<longrightarrow> drop_comma_before_brace l = l)) \<and>
   ((\<forall>r. at_object_boundary r \<longleftrightarrow>
       (\<exists>w r'. r = w @ r' \<and> list_all is_space w \<and> (r' = [] \<or> hd r' = 123))) \<and>
    (\<forall>p m r. 123 \<notin> set p \<and> at_object_boundary r \<and>
       (\<forall>k<length m. m ! k = 125 \<longrightarrow> \<not> at_object_boundary (drop (Suc k) m @ [125] @ r)) \<longrightarrow>
       object_matches (p @ [123] @ m @ [125] @ r) = (123 # m @ [125]) # object_matches r) \<and>
    (\<forall>s. (\<forall>p m r. s = p @ [123] @ m @ [125] @ r \<longrightarrow> \<not> at_object_boundary r) \<longrightarrow>
       object_matches s = []))"
  by (rule conjI [OF parseAIResponse_order conjI [OF cleaning_described
        conjI [OF array_substring_described conjI [OF lines_described object_matches_described]]]])

lemmas text_eval = js_def trim_def trim_end_def is_space_def starts_with_def cleanResponse_def

lemmas fallback_eval = fallbacks_def array_fallback_def parsed_value_def array_candidate_def
  lastIndexOf_def substring_def drop_final_def close_final_brace_def ndjson_fallback_def
  those_parsed_def drop_comma_before_brace_def objects_fallback_def at_object_boundary_def
  wrap_fallback_def trim_def trim_end_def is_space_def

lemma clean_fenced: "cleanResponse fenced_reply = js ''[{\"n\":1}]''"
  by (simp add: fenced_reply_def text_eval)

lemma clean_unclosed: "cleanResponse unclosed_reply = unclosed_reply"
  by (simp add: unclosed_reply_def text_eval)

lemma parse_unclosed: "JSON_parse unclosed_reply = Throws"
  by (simp add: unclosed_reply_def parse_eval)

lemma fallbacks_unclosed:
  "fallbacks JSON_parse unclosed_reply =
     [Some (JArr [JObj [(js ''n'', JNum 1)], JObj [(js ''n'', JNum 2)]]), None, None, None]"
  by (simp add: unclosed_reply_def fallback_eval parse_eval)

lemma clean_mixed: "cleanResponse mixed_reply = mixed_reply"
  by (simp add: mixed_reply_def text_eval)

lemma parse_mixed: "JSON_parse mixed_reply = Throws"
  by (simp add: mixed_reply_def parse_eval)

lemma fallbacks_mixed:
  "fallbacks JSON_parse mixed_reply =
     [None,
      Some (JArr [JObj [(js ''n'', JNum 3)]]),
      Some (JArr [JObj [(js ''n'', JNum 1)], JObj [(js ''n'', JNum 2)], JObj [(js ''n'', JNum 3)]]),
      None]"
  by (simp add: mixed_reply_def fallback_eval parse_eval)

lemma clean_objects: "cleanResponse objects_reply = objects_reply"
  by (simp add: objects_reply_def text_eval)

lemma parse_objects: "JSON_parse objects_reply = Throws"
  by (simp add: objects_reply_def parse_eval)

lemma fallbacks_objects:
  "fallbacks JSON_parse objects_reply =
     [None, None, Some (JArr [JObj [(js ''n'', JNum 1)], JObj [(js ''n'', JNum 2)]]), None]"
  by (simp add: objects_reply_def fallback_eval parse_eval)

lemma clean_arrays: "cleanResponse arrays_reply = arrays_reply"
  by (simp add: arrays_reply_def text_eval)

lemma parse_arrays: "JSON_parse arrays_reply = Throws"
  by (simp add: arrays_reply_def parse_eval)

lemma fallbacks_arrays:
  "fallbacks JSON_parse arrays_reply = [None, Some (JArr [JNum 1, JNum 2]), None, None]"
  by (simp add: arrays_reply_def fallback_eval parse_eval)

lemma clean_commas: "cleanResponse commas_reply = commas_reply"
  by (simp add: commas_reply_def text_eval)

lemma parse_commas: "JSON_parse commas_reply = Throws"
  by (simp add: commas_reply_def parse_eval)

lemma fallbacks_commas:
  "fallbacks JSON_parse commas_reply =
     [None, Some (JArr [JObj [(js ''n'', JNum 1)], JObj [(js ''n'', JNum 2)]]), None, None]"
  by (simp add: commas_reply_def fallback_eval parse_eval)

lemma clean_prose: "cleanResponse prose_reply = prose_reply"
  by (simp add: prose_reply_def text_eval)

lemma parse_no_data: "JSON_parse prose_reply = Throws"
  by (simp add: prose_reply_def parse_eval)

lemma fallbacks_prose: "fallbacks JSON_parse prose_reply = [None, None, None, None]"
  by (simp add: prose_reply_def fallback_eval parse_eval)

lemma no_fence_short: "length s < 3 \<Longrightarrow> \<not> has_fence s"
  by (auto simp: has_fence_def)

lemma no_seam_without_bracket: "93 \<notin> set s \<Longrightarrow> \<not> has_seam s"
  by (auto simp: has_seam_def)

theorem parseAIResponse_returns_first_success_witness:
  "parseAIResponse JSON_parse (JNum 3) = Throws \<and>
   remove_fences fenced_reply = remove_fences ([10] @ js ''[{\"n\":1}]'' @ [10, 96, 96, 96]) \<and>
   JSON_parse (cleanResponse fenced_reply) = Returns (JArr [JObj [(js ''n'', JNum 1)]]) \<and>
   parseAIResponse JSON_parse (JStr fenced_reply) = Returns (JArr [JObj [(js ''n'', JNum 1)]]) \<and>
   JSON_parse (cleanResponse unclosed_reply) = Throws \<and>
   array_candidate unclosed_reply = js ''[{\"n\":1},{\"n\":2},'' \<and>
   drop_final 44 (js ''[{\"n\":1},{\"n\":2},'') = js ''[{\"n\":1},{\"n\":2}'' \<and>
   fallbacks JSON_parse (cleanResponse unclosed_reply) =
     [Some (JArr [JObj [(js ''n'', JNum 1)], JObj [(js ''n'', JNum 2)]]), None, None, None] \<and>
   parseAIResponse JSON_parse (JStr unclosed_reply) =
     Returns (JArr [JObj [(js ''n'', JNum 1)], JObj [(js ''n'', JNum 2)]]) \<and>
   JSON_parse (cleanResponse mixed_reply) = Throws \<and>
   fallbacks JSON_parse (cleanResponse mixed_reply) =
     [None,
      Some (JArr [JObj [(js ''n'', JNum 3)]]),
      Some (JArr [JObj [(js ''n'', JNum 1)], JObj [(js ''n'', JNum 2)], JObj [(js ''n'', JNum 3)]]),
      None] \<and>
   parseAIResponse JSON_parse (JStr mixed_reply) = Returns (JArr [JObj [(js ''n'', JNum 3)]]) \<and>
   JSON_parse (cleanResponse objects_reply) = Throws \<and>
   object_matches objects_reply = [js ''{\"n\":1}'', js ''{\"n\":2}''] \<and>
   fallbacks JSON_parse (cleanResponse objects_reply) =
     [None, None, Some (JArr [JObj [(js ''n'', JNum 1)], JObj [(js ''n'', JNum 2)]]), None] \<and>
   parseAIResponse JSON_parse (JStr objects_reply) =
     Returns (JArr [JObj [(js ''n'', JNum 1)], JObj [(js ''n'', JNum 2)]]) \<and>
   JSON_parse (cleanResponse arrays_reply) = Throws \<and>
   join_arrays (js ''[1][2]'') = js ''[1,2]'' \<and>
   fallbacks JSON_parse (cleanResponse arrays_reply) = [None, Some (JArr [JNum 1, JNum 2]), None, None] \<and>
   parseAIResponse JSON_parse (JStr arrays_reply) = Returns (JArr [JNum 1, JNum 2]) \<and>
   JSON_parse (cleanResponse commas_reply) = Throws \<and>
   drop_comma_before_brace (js ''{\"n\":1,}'') = js ''{\"n\":1}'' \<and>
   fallbacks JSON_parse (cleanResponse commas_reply) =
     [None, Some (JArr [JObj [(js ''n'', JNum 1)], JObj [(js ''n'', JNum 2)]]), None, None] \<and>
   parseAIResponse JSON_parse (JStr commas_reply) =
     Returns (JArr [JObj [(js ''n'', JNum 1)], JObj [(js ''n'', JNum 2)]]) \<and>
   JSON_parse (cleanResponse prose_reply) = Throws \<and>
   fallbacks JSON_parse (cleanResponse prose_reply) = [None, None, None, None] \<and>
   wrap_fallback JSON_parse (cleanResponse prose_reply) = None \<and>
   parseAIResponse JSON_parse (JStr prose_reply) = Throws"
proof -
  note spec = parseAIResponse_returns_first_success [where parse = JSON_parse]
  note order = spec [THEN conjunct1]
  note not_string = order [THEN conjunct1, rule_format]
  note valid = order [THEN conjunct2, THEN conjunct1, rule_format]
  note first = order [THEN conjunct2, THEN conjunct2, THEN conjunct1, rule_format]
  note wrap = order [THEN conjunct2, THEN conjunct2, THEN conjunct2, THEN conjunct2, THEN conjunct1,
      rule_format]
  note cleaning = spec [THEN conjunct2, THEN conjunct1]
  note json_fence = cleaning [THEN conjunct2, THEN conjunct2, THEN conjunct1, rule_format]
  note substring = spec [THEN conjunct2, THEN conjunct2, THEN conjunct1]
  note open_candidate = substring [THEN conjunct2, THEN conjunct2, THEN conjunct1, rule_format]
  note final_found = substring [THEN conjunct2, THEN conjunct2, THEN conjunct2, THEN conjunct1, rule_format]
  note lines = spec [THEN conjunct2, THEN conjunct2, THEN conjunct2, THEN conjunct1]
  note no_seam = lines [THEN conjunct2, THEN conjunct1, rule_format]
  note seam = lines [THEN conjunct2, THEN conjunct2, THEN conjunct1, rule_format]
  note comma = lines [THEN conjunct2, THEN conjunct2, THEN conjunct2, THEN conjunct1, rule_format]
  note matches = spec [THEN conjunct2, THEN conjunct2, THEN conjunct2, THEN conjunct2]
  note found = matches [THEN conjunct2, THEN conjunct1, rule_format]
  have r0: "parseAIResponse JSON_parse (JNum 3) = Throws" by (rule not_string) simp
  have "\<not> has_fence ([] @ [96, 96])" by (rule no_fence_short) simp
  from json_fence [OF this, of "[10] @ js ''[{\"n\":1}]'' @ [10, 96, 96, 96]"]
  have c1: "remove_fences fenced_reply = remove_fences ([10] @ js ''[{\"n\":1}]'' @ [10, 96, 96, 96])"
    by (simp add: fenced_reply_def)
  have p1: "JSON_parse (cleanResponse fenced_reply) = Returns (JArr [JObj [(js ''n'', JNum 1)]])"
    by (simp add: clean_fenced parse_rows)
  have r1: "parseAIResponse JSON_parse (JStr fenced_reply) = Returns (JArr [JObj [(js ''n'', JNum 1)]])"
    using p1 by (rule valid)
  have p2: "JSON_parse (cleanResponse unclosed_reply) = Throws" by (simp add: clean_unclosed parse_unclosed)
  have at: "first_at 91 unclosed_reply 6" by (simp add: first_at_def unclosed_reply_def js_def)
  have "93 \<notin> set unclosed_reply" by (simp add: unclosed_reply_def js_def)
  then have "\<forall>b. last_at 93 unclosed_reply b \<longrightarrow> b < 6"
    unfolding last_at_def by (metis nth_mem)
  with at have "array_candidate unclosed_reply = drop 6 unclosed_reply"
    by (intro open_candidate) simp
  then have k2: "array_candidate unclosed_reply = js ''[{\"n\":1},{\"n\":2},''"
    by (simp add: unclosed_reply_def js_def)
  have "\<not> is_space 44 \<and> list_all is_space []" by (simp add: not_space)
  from final_found [OF this, of "js ''[{\"n\":1},{\"n\":2}''"]
  have d2: "drop_final 44 (js ''[{\"n\":1},{\"n\":2},'') = js ''[{\"n\":1},{\"n\":2}''"
    by (simp add: js_def)
  have f2: "fallbacks JSON_parse (cleanResponse unclosed_reply) =
     [Some (JArr [JObj [(js ''n'', JNum 1)], JObj [(js ''n'', JNum 2)]]), None, None, None]"
    by (simp add: clean_unclosed fallbacks_unclosed)
  from first [OF p2] f2
  have r2: "parseAIResponse JSON_parse (JStr unclosed_reply) =
     Returns (JArr [JObj [(js ''n'', JNum 1)], JObj [(js ''n'', JNum 2)]])"
    by simp
  have p3: "JSON_parse (cleanResponse mixed_reply) = Throws" by (simp add: clean_mixed parse_mixed)
  have f3: "fallbacks JSON_parse (cleanResponse mixed_reply) =
     [None,
      Some (JArr [JObj [(js ''n'', JNum 3)]]),
      Some (JArr [JObj [(js ''n'', JNum 1)], JObj [(js ''n'', JNum 2)], JObj [(js ''n'', JNum 3)]]),
      None]"
    by (simp add: clean_mixed fallbacks_mixed)
  from first [OF p3] f3
  have r3: "parseAIResponse JSON_parse (JStr mixed_reply) = Returns (JArr [JObj [(js ''n'', JNum 3)]])"
    by simp
  have p4: "JSON_parse (cleanResponse objects_reply) = Throws" by (simp add: clean_objects parse_objects)
  have b1: "at_object_boundary (js '' {\"n\":2}'')" and b2: "at_object_boundary []"
    by (simp_all add: at_object_boundary_def js_def is_space_def)
  have n1: "125 \<notin> set (js ''\"n\":1'')" and n2: "125 \<notin> set (js ''\"n\":2'')"
    by (simp_all add: js_def)
  have i1: "\<forall>k<length (js ''\"n\":1''). js ''\"n\":1'' ! k = 125 \<longrightarrow>
           \<not> at_object_boundary (drop (Suc k) (js ''\"n\":1'') @ [125] @ js '' {\"n\":2}'')"
    using n1 by (metis nth_mem)
  have i2: "\<forall>k<length (js ''\"n\":2''). js ''\"n\":2'' ! k = 125 \<longrightarrow>
           \<not> at_object_boundary (drop (Suc k) (js ''\"n\":2'') @ [125] @ [])"
    using n2 by (metis nth_mem)
  have "123 \<notin> set (js ''See '')" by (simp add: js_def)
  with b1 i1 have
    "123 \<notin> set (js ''See '') \<and> at_object_boundary (js '' {\"n\":2}'') \<and>
     (\<forall>k<length (js ''\"n\":1''). js ''\"n\":1'' ! k = 125 \<longrightarrow>
        \<not> at_object_boundary (drop (Suc k) (js ''\"n\":1'') @ [125] @ js '' {\"n\":2}''))"
    by blast
  from found [OF this]
  have m4a: "object_matches objects_reply = js ''{\"n\":1}'' # object_matches (js '' {\"n\":2}'')"
    by (simp add: objects_reply_def js_def)
  have "123 \<notin> set (js '' '')" by (simp add: js_def)
  with b2 i2 have
    "123 \<notin> set (js '' '') \<and> at_object_boundary [] \<and>
     (\<forall>k<length (js ''\"n\":2''). js ''\"n\":2'' ! k = 125 \<longrightarrow>
        \<not> at_object_boundary (drop (Suc k) (js ''\"n\":2'') @ [125] @ []))"
    by blast
  from found [OF this]
  have m4b: "object_matches (js '' {\"n\":2}'') = [js ''{\"n\":2}'']"
    by (simp add: js_def)
  have m4: "object_matches objects_reply = [js ''{\"n\":1}'', js ''{\"n\":2}'']"
    using m4a m4b by simp
  have f4: "fallbacks JSON_parse (cleanResponse objects_reply) =
     [None, None, Some (JArr [JObj [(js ''n'', JNum 1)], JObj [(js ''n'', JNum 2)]]), None]"
    by (simp add: clean_objects fallbacks_objects)
  from first [OF p4] f4
  have r4: "parseAIResponse JSON_parse (JStr objects_reply) =
     Returns (JArr [JObj [(js ''n'', JNum 1)], JObj [(js ''n'', JNum 2)]])"
    by simp
  have p5: "JSON_parse (cleanResponse arrays_reply) = Throws" by (simp add: clean_arrays parse_arrays)
  have "\<not> has_seam (js ''[1'') \<and> list_all is_space []"
    by (simp add: no_seam_without_bracket js_def)
  from seam [OF this, of "js ''2]''"]
  have j5a: "join_arrays (js ''[1][2]'') = js ''[1,'' @ join_arrays (js ''2]'')" by (simp add: js_def)
  have "\<not> has_seam (js ''2]'')" by (auto simp: has_seam_def js_def Cons_eq_append_conv)
  from no_seam [OF this] j5a
  have j5: "join_arrays (js ''[1][2]'') = js ''[1,2]''" by (simp add: js_def)
  have f5: "fallbacks JSON_parse (cleanResponse arrays_reply) = [None, Some (JArr [JNum 1, JNum 2]), None, None]"
    by (simp add: clean_arrays fallbacks_arrays)
  from first [OF p5] f5
  have r5: "parseAIResponse JSON_parse (JStr arrays_reply) = Returns (JArr [JNum 1, JNum 2])"
    by simp
  have p6: "JSON_parse (cleanResponse commas_reply) = Throws" by (simp add: clean_commas parse_commas)
  have "list_all is_space []" by simp
  from comma [OF this, of "js ''{\"n\":1''"]
  have d6: "drop_comma_before_brace (js ''{\"n\":1,}'') = js ''{\"n\":1}''" by (simp add: js_def)
  have f6: "fallbacks JSON_parse (cleanResponse commas_reply) =
     [None, Some (JArr [JObj [(js ''n'', JNum 1)], JObj [(js ''n'', JNum 2)]]), None, None]"
    by (simp add: clean_commas fallbacks_commas)
  from first [OF p6] f6
  have r6: "parseAIResponse JSON_parse (JStr commas_reply) =
     Returns (JArr [JObj [(js ''n'', JNum 1)], JObj [(js ''n'', JNum 2)]])"
    by simp
  have p7: "JSON_parse (cleanResponse prose_reply) = Throws" by (simp add: clean_prose parse_no_data)
  have f7: "fallbacks JSON_parse (cleanResponse prose_reply) = [None, None, None, None]"
    by (simp add: clean_prose fallbacks_prose)
  have w7: "wrap_fallback JSON_parse (cleanResponse prose_reply) = None" using p7 by (rule wrap)
  from first [OF p7] f7
  have r7: "parseAIResponse JSON_parse (JStr prose_reply) = Throws"
    by simp
  show ?thesis
    by (intro conjI) (fact r0 c1 p1 r1 p2 k2 d2 f2 r2 p3 f3 r3 p4 m4 f4 r4 p5 j5 f5 r5 p6 d6 f6 r6 p7 f7 w7 r7)+
qed

subsection \<open>Extracting the first object\<close>

text \<open>
  Whatever the loop returns is the parse, direct or repaired, of a span that begins
  where the scan began and ends with a closing brace.
\<close>

lemma scan_returns_span:
  "scan parse seen inString escape depth rest = Some v \<Longrightarrow>
   \<exists>k<length rest. rest ! k = 125 \<and>
     (parse (seen @ take (Suc k) rest) = Returns v \<or>
      tryParseJsonWithRepairs parse (seen @ take (Suc k) rest) = v)"
proof (induction rest arbitrary: seen inString escape depth)
  case Nil
  then show ?case by simp
next
  case (Cons ch rest)
  have step: "\<exists>k<length (ch # rest). (ch # rest) ! k = 125 \<and>
     (parse (seen @ take (Suc k) (ch # rest)) = Returns v \<or>
      tryParseJsonWithRepairs parse (seen @ take (Suc k) (ch # rest)) = v)"
    if "scan parse (seen @ [ch]) i e d rest = Some v" for i e d
  proof -
    from Cons.IH [OF that] obtain k where
      "k < length rest" "rest ! k = 125"
      "parse ((seen @ [ch]) @ take (Suc k) rest) = Returns v \<or>
       tryParseJsonWithRepairs parse ((seen @ [ch]) @ take (Suc k) rest) = v"
      by blast
    then show ?thesis by (intro exI [of _ "Suc k"]) simp
  qed
  have here: "\<exists>k<length (ch # rest). (ch # rest) ! k = 125 \<and>
     (parse (seen @ take (Suc k) (ch # rest)) = Returns v \<or>
      tryParseJsonWithRepairs parse (seen @ take (Suc k) (ch # rest)) = v)"
    if "ch = 125" "parse (seen @ [ch]) = Returns v \<or> tryParseJsonWithRepairs parse (seen @ [ch]) = v"
    using that by (intro exI [of _ 0]) simp
  from Cons.prems have
    "(ch = 125 \<and> (parse (seen @ [ch]) = Returns v \<or> tryParseJsonWithRepairs parse (seen @ [ch]) = v)) \<or>
     (\<exists>i e d. scan parse (seen @ [ch]) i e d rest = Some v)"
    by (simp add: Let_def split: if_splits outcome.splits) blast+
  then show ?case using step here by blast
qed


lemma indexOf_Some: "indexOf c s = Some a \<Longrightarrow> a < length s \<and> s ! a = c"
proof (induction s arbitrary: a)
  case Nil
  then show ?case by simp
next
  case (Cons x xs)
  then show ?case by (cases "x = c") (auto split: if_splits)
qed

lemma lastIndexOf_Some: "lastIndexOf c s = Some b \<Longrightarrow> b < length s \<and> s ! b = c"
proof -
  assume "lastIndexOf c s = Some b"
  then obtain i where i: "indexOf c (rev s) = Some i" "b = length s - 1 - i"
    by (auto simp: lastIndexOf_def)
  from indexOf_Some [OF i(1)] have "i < length s" "rev s ! i = c" by simp_all
  then show "b < length s \<and> s ! b = c" using i(2) by (simp add: rev_nth)
qed

lemma match_braces_span:
  assumes "match_braces text = Some m"
  shows "\<exists>a n. indexOf 123 text = Some a \<and> 0 < n \<and> a + n \<le> length text \<and>
           text ! (a + n - 1) = 125 \<and> m = take n (drop a text)"
proof -
  from assms obtain a b where
    ab: "indexOf 123 text = Some a" "lastIndexOf 125 text = Some b" "a < b"
      "m = substring text a (b + 1)"
    by (auto simp: match_braces_def split: option.splits if_splits)
  from lastIndexOf_Some [OF ab(2)] have "b < length text" "text ! b = 125" by simp_all
  then show ?thesis
    using ab by (intro exI [of _ a] exI [of _ "b + 1 - a"]) (simp add: substring_def)
qed

text \<open>
  A result that is not \<open>null\<close> is the parse, direct or repaired, of a span of the text
  from its first opening brace to one of its closing braces.
\<close>

lemma extractFirstJsonObj_span:
  assumes "extractFirstJsonObj parse text \<noteq> JNull"
  shows "\<exists>firstOpen n. indexOf 123 text = Some firstOpen \<and> 0 < n \<and> firstOpen + n \<le> length text \<and>
           text ! (firstOpen + n - 1) = 125 \<and>
           (parse (take n (drop firstOpen text)) = Returns (extractFirstJsonObj parse text) \<or>
            tryParseJsonWithRepairs parse (take n (drop firstOpen text)) = extractFirstJsonObj parse text)"
proof (cases "indexOf 123 text")
  case None
  then have "match_braces text = None" by (simp add: match_braces_def)
  with None assms show ?thesis by (simp add: extractFirstJsonObj_def split: if_splits)
next
  case (Some firstOpen)
  show ?thesis
  proof (cases "scan parse [] False False 0 (drop firstOpen text)")
    case found: (Some v)
    then have res: "extractFirstJsonObj parse text = v"
      using Some assms by (simp add: extractFirstJsonObj_def split: if_splits)
    from scan_returns_span [OF found] obtain k where
      k: "k < length (drop firstOpen text)" "drop firstOpen text ! k = 125"
        "parse (take (Suc k) (drop firstOpen text)) = Returns v \<or>
         tryParseJsonWithRepairs parse (take (Suc k) (drop firstOpen text)) = v"
      by auto
    then have "firstOpen + Suc k \<le> length text" "text ! (firstOpen + Suc k - 1) = 125"
      by simp_all
    with k(3) res Some show ?thesis by (intro exI [of _ firstOpen] exI [of _ "Suc k"]) simp
  next
    case None
    show ?thesis
    proof (cases "match_braces text")
      case no: None
      with None Some assms show ?thesis by (simp add: extractFirstJsonObj_def split: if_splits)
    next
      case m: (Some m)
      then have res: "extractFirstJsonObj parse text = tryParseJsonWithRepairs parse m"
        using None Some assms by (simp add: extractFirstJsonObj_def split: if_splits)
      from match_braces_span [OF m] Some obtain n where
        "0 < n" "firstOpen + n \<le> length text" "text ! (firstOpen + n - 1) = 125"
        "m = take n (drop firstOpen text)"
        by auto
      with res Some show ?thesis by (intro exI [of _ firstOpen] exI [of _ n]) simp
    qed
  qed
qed

lemma parse_a1: "JSON_parse (js ''{\"a\":1}'') = Returns (JObj [(js ''a'', JNum 1)])"
  by (simp add: parse_eval)

text \<open>
  C1: \<open>extractFirstJsonObj\<close> is to return the parse of the first balanced object of the text
  that parses. On \<open>{bad} {"a":1}\<close> it returns \<open>null\<close>, although the balanced object
  \<open>{"a":1}\<close> parses: every candidate of the loop, and the span of the final search, begins
  at the first opening brace, so the loop never reaches "a later object". With the two
  objects in the other order the object is found.
\<close>

theorem later_object_is_not_extracted:
  "extractFirstJsonObj JSON_parse (js ''{bad} {\"a\":1}'') = JNull \<and>
   JSON_parse (js ''{\"a\":1}'') = Returns (JObj [(js ''a'', JNum 1)]) \<and>
   extractFirstJsonObj JSON_parse (js ''{\"a\":1} {bad}'') = JObj [(js ''a'', JNum 1)]"
proof -
  have "extractFirstJsonObj JSON_parse (js ''{bad} {\"a\":1}'') = JNull"
    by (simp add: extractFirstJsonObj_def parse_eval tryParseJsonWithRepairs_def match_braces_def
        lastIndexOf_def substring_def trim_def normalize_quotes_def is_space_def is_key_char_def)
  moreover have "extractFirstJsonObj JSON_parse (js ''{\"a\":1} {bad}'') = JObj [(js ''a'', JNum 1)]"
    by (simp add: extractFirstJsonObj_def parse_eval)
  ultimately show ?thesis using parse_a1 by simp
qed

end
